theory Spec2Isabelle
  imports Complex_Main "HOL-Library.Sublist"
begin

section \<open>Vector transmission model of FRED (Vector\_Transmission.cc)\<close>

text \<open>
  The three routines of \<^verbatim>\<open>Vector_Transmission\<close> are embedded as state-passing functions
  on a record \<open>world\<close>: the place the call is made on, the store of persons its
  enrollee pointers refer to, the shared random stream, and the sequence of mutator calls
  made on the collaborators (place and persons).

  C++ \<^verbatim>\<open>int\<close> is modelled by \<open>int\<close> without a bound; disease ids, which only index
  per-disease tables, by \<open>nat\<close>. A \<^verbatim>\<open>double\<close> is a finite real, an infinity or a NaN;
  arithmetic on finite values is exact (rounding to 53 bits is not modelled, and the only
  zero is +0). Behaviour that is undefined in C++ (conversion of a non-finite double to
  \<^verbatim>\<open>int\<close>, a read outside a vector's allocation) is a \<open>fault\<close> result.
\<close>

subsection \<open>Doubles\<close>

datatype double = Fin real | PInf | NInf | NaN

fun d_sub :: "double \<Rightarrow> double \<Rightarrow> double" where
  "d_sub (Fin a) (Fin b) = Fin (a - b)"
| "d_sub NaN y = NaN"
| "d_sub x NaN = NaN"
| "d_sub PInf PInf = NaN"
| "d_sub NInf NInf = NaN"
| "d_sub PInf y = PInf"
| "d_sub NInf y = NInf"
| "d_sub (Fin a) PInf = NInf"
| "d_sub (Fin a) NInf = PInf"

fun d_sgn :: "double \<Rightarrow> int" where
  "d_sgn (Fin a) = (if a < 0 then - 1 else if a = 0 then 0 else 1)"
| "d_sgn PInf = 1"
| "d_sgn NInf = - 1"
| "d_sgn NaN = 0"

definition d_inf :: "int \<Rightarrow> double" where
  "d_inf s = (if s = 0 then NaN else if 0 < s then PInf else NInf)"

fun d_mul :: "double \<Rightarrow> double \<Rightarrow> double" where
  "d_mul (Fin a) (Fin b) = Fin (a * b)"
| "d_mul NaN y = NaN"
| "d_mul x NaN = NaN"
| "d_mul x y = d_inf (d_sgn x * d_sgn y)"

fun d_div :: "double \<Rightarrow> double \<Rightarrow> double" where
  "d_div (Fin a) (Fin b) = (if b = 0 then d_inf (d_sgn (Fin a)) else Fin (a / b))"
| "d_div NaN y = NaN"
| "d_div x NaN = NaN"
| "d_div (Fin a) y = Fin 0"
| "d_div x (Fin b) = d_inf (d_sgn x * (if b < 0 then - 1 else 1))"
| "d_div x y = NaN"

fun d_floor :: "double \<Rightarrow> double" where
  "d_floor (Fin a) = Fin (of_int \<lfloor>a\<rfloor>)"
| "d_floor x = x"

fun d_less :: "double \<Rightarrow> double \<Rightarrow> bool" where
  "d_less (Fin a) (Fin b) = (a < b)"
| "d_less NaN y = False"
| "d_less x NaN = False"
| "d_less x PInf = (x \<noteq> PInf)"
| "d_less NInf y = (y \<noteq> NInf)"
| "d_less x y = False"

text \<open>Conversion of a double to \<^verbatim>\<open>int\<close> truncates toward zero; it is undefined for
  an infinity or a NaN.\<close>

definition trunc_real :: "real \<Rightarrow> int" where
  "trunc_real a = (if 0 \<le> a then \<lfloor>a\<rfloor> else \<lceil>a\<rceil>)"

fun d_to_int :: "double \<Rightarrow> int option" where
  "d_to_int (Fin a) = Some (trunc_real a)"
| "d_to_int x = None"

definition d_of_int :: "int \<Rightarrow> double" where
  "d_of_int n = Fin (of_int n)"

definition odd_integer :: "real \<Rightarrow> bool" where
  "odd_integer b = (b = of_int \<lfloor>b\<rfloor> \<and> odd \<lfloor>b\<rfloor>)"

text \<open>\<^verbatim>\<open>pow\<close> of the C library, with the special cases of ISO C Annex F.\<close>

fun d_pow_cases :: "double \<Rightarrow> double \<Rightarrow> double" where
  "d_pow_cases NaN y = NaN"
| "d_pow_cases x NaN = NaN"
| "d_pow_cases (Fin a) (Fin b) =
     (if a = 0 then (if b < 0 then PInf else Fin 0)
      else if 0 < a then Fin (a powr b)
      else if b = of_int \<lfloor>b\<rfloor>
        then (if odd \<lfloor>b\<rfloor> then Fin (- (\<bar>a\<bar> powr b)) else Fin (\<bar>a\<bar> powr b))
      else NaN)"
| "d_pow_cases (Fin a) PInf =
     (if \<bar>a\<bar> < 1 then Fin 0 else if \<bar>a\<bar> = 1 then Fin 1 else PInf)"
| "d_pow_cases (Fin a) NInf =
     (if \<bar>a\<bar> < 1 then PInf else if \<bar>a\<bar> = 1 then Fin 1 else Fin 0)"
| "d_pow_cases PInf (Fin b) = (if b < 0 then Fin 0 else PInf)"
| "d_pow_cases PInf PInf = PInf"
| "d_pow_cases PInf NInf = Fin 0"
| "d_pow_cases NInf (Fin b) =
     (if b < 0 then Fin 0 else if odd_integer b then NInf else PInf)"
| "d_pow_cases NInf PInf = PInf"
| "d_pow_cases NInf NInf = Fin 0"

definition d_pow :: "double \<Rightarrow> double \<Rightarrow> double" where
  "d_pow x y = (if y = Fin 0 then Fin 1 else if x = Fin 1 then Fin 1 else d_pow_cases x y)"

subsection \<open>Collaborators: place, persons, process-wide parameters, random stream\<close>

type_synonym disease_id = nat
type_synonym person_ptr = nat

text \<open>The fields of a place are the answers of its accessors. \<open>get_enrollees\<close> is a
  vector of pointers into the person store.\<close>

record place =
  is_open :: "int \<Rightarrow> bool"
  should_be_open :: "int \<Rightarrow> disease_id \<Rightarrow> bool"
  have_vectors_been_infected_today :: bool
  get_susceptible_vectors :: int
  get_size :: int
  get_number_of_infectious_people :: "disease_id \<Rightarrow> int"
  get_infectious_vectors :: "disease_id \<Rightarrow> int"
  get_enrollees :: "person_ptr list"

text \<open>\<open>is_present p day\<close> is the answer of \<^verbatim>\<open>is_present(day, place)\<close> for this place
  once the person's schedule has been updated for \<open>day\<close>.\<close>

record person =
  is_present :: "int \<Rightarrow> bool"
  is_susceptible :: "disease_id \<Rightarrow> bool"

text \<open>\<open>get_transmissibility g d\<close> stands for
  \<^verbatim>\<open>Global::Diseases.get_disease(d)->get_transmissibility()\<close>; the constant
  \<^verbatim>\<open>DISEASE_TYPES\<close> is declared outside this file and is a parameter.\<close>

record globals =
  get_transmissibility :: "disease_id \<Rightarrow> double"
  get_number_of_diseases :: nat
  DISEASE_TYPES :: nat
  get_infection_efficiency :: double
  get_transmission_efficiency :: double
  get_bite_rate :: double

datatype event =
    ResetPlaceState disease_id
  | RecordInfectiousDays int
  | ExposeVectors disease_id int
  | MarkVectorsAsInfectedToday
  | UpdateSchedule person_ptr int
  | BecomeExposed person_ptr disease_id int
  | BecomeUnsusceptible person_ptr disease_id

record world =
  the_place :: place
  people :: "person_ptr \<Rightarrow> person"
  random_stream :: "nat \<Rightarrow> real"
  draws_consumed :: nat
  calls :: "event list"

datatype fault = NonFiniteToInt | IndexOutOfRange

text \<open>Modelled from the spec: \<^verbatim>\<open>Place::reset_place_state\<close> (Place.cc is not part of
  the sources). The spec gives it as the mutator that clears the transient counters of the
  place for one disease, without naming the fields; the model records the call and its
  argument.\<close>

definition reset_place_state :: "disease_id \<Rightarrow> world \<Rightarrow> world" where
  "reset_place_state d w = w\<lparr>calls := calls w @ [ResetPlaceState d]\<rparr>"

text \<open>Modelled from the spec: \<^verbatim>\<open>Place::record_infectious_days\<close> (Place.cc is not part
  of the sources), which extends the first and last day of infectiousness that the place
  keeps; the model records the call and its argument.\<close>

definition record_infectious_days :: "int \<Rightarrow> world \<Rightarrow> world" where
  "record_infectious_days day w = w\<lparr>calls := calls w @ [RecordInfectiousDays day]\<rparr>"

text \<open>Modelled from the spec: \<^verbatim>\<open>Place::expose_vectors\<close> (Place.cc is not part of the
  sources), the mutator of the vector infection counters of the place; the model records
  the call and its arguments.\<close>

definition expose_vectors :: "disease_id \<Rightarrow> int \<Rightarrow> world \<Rightarrow> world" where
  "expose_vectors d n w = w\<lparr>calls := calls w @ [ExposeVectors d n]\<rparr>"

text \<open>Modelled from the spec: \<^verbatim>\<open>Place::mark_vectors_as_infected_today\<close> sets the shared
  flag that \<^verbatim>\<open>have_vectors_been_infected_today\<close> reads.\<close>

definition mark_vectors_as_infected_today :: "world \<Rightarrow> world" where
  "mark_vectors_as_infected_today w =
     w\<lparr>the_place := (the_place w)\<lparr>have_vectors_been_infected_today := True\<rparr>,
       calls := calls w @ [MarkVectorsAsInfectedToday]\<rparr>"

text \<open>Modelled from the spec: \<^verbatim>\<open>Person::update_schedule\<close> (Person.cc is not part of
  the sources); the model records the call, and \<open>is_present\<close> gives the answer after it.\<close>

definition update_schedule :: "person_ptr \<Rightarrow> int \<Rightarrow> world \<Rightarrow> world" where
  "update_schedule h day w = w\<lparr>calls := calls w @ [UpdateSchedule h day]\<rparr>"

text \<open>Modelled from the spec: \<^verbatim>\<open>Person::become_exposed\<close> (Person.cc is not part of the
  sources). A host is, per strain, susceptible or exposed-or-immune: exposure to a strain
  ends the susceptibility to it.\<close>

definition become_exposed :: "person_ptr \<Rightarrow> disease_id \<Rightarrow> int \<Rightarrow> world \<Rightarrow> world" where
  "become_exposed h d day w =
     w\<lparr>people := (people w)(h := (people w h)\<lparr>is_susceptible := (is_susceptible (people w h))(d := False)\<rparr>),
       calls := calls w @ [BecomeExposed h d day]\<rparr>"

text \<open>Modelled from the spec: \<^verbatim>\<open>Person::become_unsusceptible\<close> (Person.cc is not part of
  the sources), which marks the host not susceptible to the strain.\<close>

definition become_unsusceptible :: "person_ptr \<Rightarrow> disease_id \<Rightarrow> world \<Rightarrow> world" where
  "become_unsusceptible h d w =
     w\<lparr>people := (people w)(h := (people w h)\<lparr>is_susceptible := (is_susceptible (people w h))(d := False)\<rparr>),
       calls := calls w @ [BecomeUnsusceptible h d]\<rparr>"

text \<open>\<^verbatim>\<open>Random::draw_random()\<close>: the next value of the shared uniform stream.\<close>

definition draw_random :: "world \<Rightarrow> real \<times> world" where
  "draw_random w =
     (random_stream w (draws_consumed w), w\<lparr>draws_consumed := Suc (draws_consumed w)\<rparr>)"

subsection \<open>std::vector\<close>

text \<open>A vector is its size and its allocated storage (whose length is the capacity).
  \<^verbatim>\<open>reserve\<close> allocates without changing the size. \<^verbatim>\<open>operator[]\<close> is unchecked: C++
  leaves an access at or beyond the size undefined, and the model follows the usual
  implementation, in which it reads or writes the allocated storage; an access outside the
  allocation has no result.\<close>

record int_vector =
  vsize :: nat
  storage :: "int list"

definition empty_vector :: int_vector where
  "empty_vector = \<lparr>vsize = 0, storage = []\<rparr>"

definition reserve :: "nat \<Rightarrow> int_vector \<Rightarrow> int_vector" where
  "reserve n v =
     (if n \<le> length (storage v) then v
      else v\<lparr>storage := storage v @ replicate (n - length (storage v)) 0\<rparr>)"

definition vector_set :: "nat \<Rightarrow> int \<Rightarrow> int_vector \<Rightarrow> int_vector option" where
  "vector_set i x v =
     (if i < length (storage v) then Some (v\<lparr>storage := (storage v)[i := x]\<rparr>) else None)"

definition vector_get :: "int_vector \<Rightarrow> nat \<Rightarrow> int option" where
  "vector_get v i = (if i < length (storage v) then Some (storage v ! i) else None)"

text \<open>Modelled from the spec: the loop of \<^verbatim>\<open>FYShuffle\<close> (Random.h is not part of the
  sources), an unbiased in-place Fisher-Yates shuffle that consumes one random draw per
  swap: position \<open>i\<close>, from the last one down to 1, is swapped with a position drawn
  uniformly from \<open>0..i\<close>. The first argument is the number of positions still to place.\<close>

fun fy_loop :: "nat \<Rightarrow> int list \<Rightarrow> world \<Rightarrow> int list \<times> world" where
  "fy_loop 0 xs w = (xs, w)"
| "fy_loop (Suc 0) xs w = (xs, w)"
| "fy_loop (Suc (Suc i)) xs w =
     (let (u, w') = draw_random w;
          r = nat \<lfloor>u * real (Suc (Suc i))\<rfloor>
      in fy_loop (Suc i) (xs[Suc i := xs ! r, r := xs ! Suc i]) w')"

text \<open>Modelled from the spec: \<^verbatim>\<open>FYShuffle\<close> (Random.h is not part of the sources)
  shuffles the elements of the vector it is given, which are the positions below its
  size.\<close>

definition FYShuffle :: "int_vector \<Rightarrow> world \<Rightarrow> int_vector \<times> world" where
  "FYShuffle v w =
     (let (xs, w') = fy_loop (vsize v) (storage v) w in (v\<lparr>storage := xs\<rparr>, w'))"

subsection \<open>infect\_vectors\<close>

text \<open>Line 97: each vector's probability of infection.\<close>

definition vector_prob_infection :: "globals \<Rightarrow> int \<Rightarrow> int \<Rightarrow> double" where
  "vector_prob_infection g total_infectious_hosts total_hosts =
     d_sub (Fin 1)
       (d_pow (d_sub (Fin 1) (get_infection_efficiency g))
          (d_div (d_mul (get_bite_rate g) (d_of_int total_infectious_hosts))
                 (d_of_int total_hosts)))"

text \<open>Lines 77-82: the per-disease counts of infectious hosts and their total.\<close>

definition infectious_hosts :: "globals \<Rightarrow> world \<Rightarrow> int list" where
  "infectious_hosts g w =
     map (get_number_of_infectious_people (the_place w)) [0..<get_number_of_diseases g]"

definition total_infectious_hosts :: "globals \<Rightarrow> world \<Rightarrow> int" where
  "total_infectious_hosts g w = sum_list (infectious_hosts g w)"

text \<open>Line 100: the number of vectors to be infected.\<close>

definition total_infections :: "globals \<Rightarrow> world \<Rightarrow> int option" where
  "total_infections g w =
     d_to_int (d_mul (vector_prob_infection g (total_infectious_hosts g w) (get_size (the_place w)))
                 (d_of_int (get_susceptible_vectors (the_place w))))"

text \<open>Line 106: the share of one disease.\<close>

definition exposed_vectors :: "int \<Rightarrow> int \<Rightarrow> int \<Rightarrow> int option" where
  "exposed_vectors total_new ih tih =
     d_to_int (d_mul (d_of_int total_new) (d_div (d_of_int ih) (d_of_int tih)))"

text \<open>Lines 104-109: the loop over the diseases; the second component of the state is
  \<^verbatim>\<open>newly_infected\<close>.\<close>

function expose_loop ::
  "int \<Rightarrow> int list \<Rightarrow> int \<Rightarrow> nat \<Rightarrow> nat \<Rightarrow> world \<times> int \<Rightarrow> fault + world \<times> int" where
  "expose_loop total_new ihs tih diseases d (w, newly_infected) =
     (if d < diseases then
        (case exposed_vectors total_new (ihs ! d) tih of
           None \<Rightarrow> Inl NonFiniteToInt
         | Some n \<Rightarrow>
             expose_loop total_new ihs tih diseases (Suc d) (expose_vectors d n w, newly_infected + n))
      else Inr (w, newly_infected))"
  by pat_completeness auto
termination
  by (relation "measure (\<lambda>(total_new, ihs, tih, diseases, d, s). diseases - d)") auto

declare expose_loop.simps [simp del]

definition infect_vectors :: "globals \<Rightarrow> int \<Rightarrow> world \<Rightarrow> fault + world" where
  "infect_vectors g day w =
     (let susceptible_vectors = get_susceptible_vectors (the_place w) in
      if susceptible_vectors = 0 then Inr w
      else
        let diseases = get_number_of_diseases g;
            ihs = infectious_hosts g w;
            tih = total_infectious_hosts g w
        in if tih = 0 then Inr w
           else
             (case total_infections g w of
                None \<Rightarrow> Inl NonFiniteToInt
              | Some total_new \<Rightarrow>
                  (case expose_loop total_new ihs tih diseases 0 (w, 0) of
                     Inl e \<Rightarrow> Inl e
                   | Inr (w', newly_infected) \<Rightarrow> Inr (mark_vectors_as_infected_today w'))))"

subsection \<open>infect\_hosts\<close>

text \<open>Line 136: each host's probability of infection.\<close>

definition host_prob_infection :: "globals \<Rightarrow> int \<Rightarrow> int \<Rightarrow> double" where
  "host_prob_infection g infectious_vectors total_hosts =
     d_sub (Fin 1)
       (d_pow (d_sub (Fin 1) (get_transmission_efficiency g))
          (d_div (d_mul (get_bite_rate g) (d_of_int infectious_vectors))
                 (d_of_int total_hosts)))"

text \<open>Line 139.\<close>

definition expected_infections :: "globals \<Rightarrow> int \<Rightarrow> int \<Rightarrow> double" where
  "expected_infections g infectious_vectors total_hosts =
     d_mul (d_of_int total_hosts) (host_prob_infection g infectious_vectors total_hosts)"

text \<open>Lines 140-144: the number of hosts to attempt, from the expected number and the
  random stream; one draw is consumed.\<close>

definition select_max_exposed_hosts :: "double \<Rightarrow> world \<Rightarrow> fault + int \<times> world" where
  "select_max_exposed_hosts e w =
     (case d_to_int (d_floor e) of
        None \<Rightarrow> Inl NonFiniteToInt
      | Some max_exposed_hosts \<Rightarrow>
          let remainder = d_sub e (d_of_int max_exposed_hosts);
              (u, w') = draw_random w
          in if d_less (Fin u) remainder then Inr (max_exposed_hosts + 1, w')
             else Inr (max_exposed_hosts, w'))"

text \<open>Lines 152-154: \<^verbatim>\<open>shuffle_index[i] = i\<close> for every \<open>i\<close> below \<open>total_hosts\<close>.\<close>

function fill_index :: "nat \<Rightarrow> nat \<Rightarrow> int_vector \<Rightarrow> int_vector option" where
  "fill_index total_hosts i v =
     (if i < total_hosts then
        (case vector_set i (int i) v of
           None \<Rightarrow> None
         | Some v' \<Rightarrow> fill_index total_hosts (Suc i) v')
      else Some v)"
  by pat_completeness auto
termination
  by (relation "measure (\<lambda>(total_hosts, i, v). total_hosts - i)") auto

declare fill_index.simps [simp del]

text \<open>Lines 174-179: the host becomes unsusceptible to every other disease.\<close>

function immunity_loop :: "globals \<Rightarrow> person_ptr \<Rightarrow> disease_id \<Rightarrow> nat \<Rightarrow> world \<Rightarrow> world" where
  "immunity_loop g infectee disease_id d w =
     (if d < DISEASE_TYPES g then
        immunity_loop g infectee disease_id (Suc d)
          (if d \<noteq> disease_id then become_unsusceptible infectee d w else w)
      else w)"
  by pat_completeness auto
termination
  by (relation "measure (\<lambda>(g, infectee, disease_id, d, w). DISEASE_TYPES g - d)") auto

declare immunity_loop.simps [simp del]

text \<open>Lines 161-182: the body of the attempt loop, for position \<open>j\<close>.\<close>

definition attempt :: "globals \<Rightarrow> int \<Rightarrow> disease_id \<Rightarrow> int_vector \<Rightarrow> nat \<Rightarrow> world \<Rightarrow> fault + world" where
  "attempt g day disease_id shuffle_index j w =
     (case vector_get shuffle_index j of
        None \<Rightarrow> Inl IndexOutOfRange
      | Some k \<Rightarrow>
          if k < 0 \<or> int (length (get_enrollees (the_place w))) \<le> k then Inl IndexOutOfRange
          else
            let infectee = get_enrollees (the_place w) ! nat k;
                w1 = update_schedule infectee day w
            in if \<not> is_present (people w1 infectee) day then Inr w1
               else if is_susceptible (people w1 infectee) disease_id then
                 Inr (immunity_loop g infectee disease_id 0 (become_exposed infectee disease_id day w1))
               else Inr w1)"

text \<open>Lines 160-183: the attempt loop.\<close>

function attempt_loop ::
  "globals \<Rightarrow> int \<Rightarrow> disease_id \<Rightarrow> int_vector \<Rightarrow> int \<Rightarrow> nat \<Rightarrow> world \<Rightarrow> fault + world" where
  "attempt_loop g day disease_id shuffle_index max_exposed_hosts j w =
     (if int j < max_exposed_hosts then
        (case attempt g day disease_id shuffle_index j w of
           Inl e \<Rightarrow> Inl e
         | Inr w' \<Rightarrow> attempt_loop g day disease_id shuffle_index max_exposed_hosts (Suc j) w')
      else Inr w)"
  by pat_completeness auto
termination
  by (relation "measure (\<lambda>(g, day, disease_id, shuffle_index, max_exposed_hosts, j, w).
        nat (max_exposed_hosts - int j))") auto

declare attempt_loop.simps [simp del]

text \<open>Lines 150-155: the index vector handed to the attempt loop.\<close>

definition build_shuffle_index :: "nat \<Rightarrow> world \<Rightarrow> fault + int_vector \<times> world" where
  "build_shuffle_index total_hosts w =
     (case fill_index total_hosts 0 (reserve total_hosts empty_vector) of
        None \<Rightarrow> Inl IndexOutOfRange
      | Some shuffle_index \<Rightarrow> Inr (FYShuffle shuffle_index w))"

definition infect_hosts :: "globals \<Rightarrow> int \<Rightarrow> disease_id \<Rightarrow> world \<Rightarrow> fault + world" where
  "infect_hosts g day disease_id w =
     (let total_hosts = length (get_enrollees (the_place w)) in
      if total_hosts = 0 then Inr w
      else
        let infectious_vectors = get_infectious_vectors (the_place w) disease_id in
        if infectious_vectors = 0 then Inr w
        else if get_transmission_efficiency g = Fin 0 then Inr w
        else
          (case select_max_exposed_hosts
                  (expected_infections g infectious_vectors (int total_hosts)) w of
             Inl e \<Rightarrow> Inl e
           | Inr (max_exposed_hosts, w1) \<Rightarrow>
               (case build_shuffle_index total_hosts w1 of
                  Inl e \<Rightarrow> Inl e
                | Inr (shuffle_index, w2) \<Rightarrow>
                    attempt_loop g day disease_id shuffle_index max_exposed_hosts 0 w2)))"

subsection \<open>spread\_infection\<close>

definition spread_infection :: "globals \<Rightarrow> int \<Rightarrow> disease_id \<Rightarrow> world \<Rightarrow> fault + world" where
  "spread_infection g day disease_id w =
     (let beta = get_transmissibility g disease_id in
      if beta = Fin 0 \<or> is_open (the_place w) day = False
         \<or> should_be_open (the_place w) day disease_id = False
      then Inr (reset_place_state disease_id w)
      else
        let w1 = record_infectious_days day w in
        (case (if have_vectors_been_infected_today (the_place w1) = False
               then infect_vectors g day w1 else Inr w1) of
           Inl e \<Rightarrow> Inl e
         | Inr w2 \<Rightarrow>
             (case infect_hosts g day disease_id w2 of
                Inl e \<Rightarrow> Inl e
              | Inr w3 \<Rightarrow> Inr (reset_place_state disease_id w3))))"

subsection \<open>Observations on the sequence of calls\<close>

text \<open>The calls made between two states of the world.\<close>

definition new_calls :: "world \<Rightarrow> world \<Rightarrow> event list" where
  "new_calls w w' = drop (length (calls w)) (calls w')"

fun is_reset :: "event \<Rightarrow> bool" where
  "is_reset (ResetPlaceState d) = True"
| "is_reset e = False"

text \<open>The hosts whose schedule was updated, the hosts that were exposed, and the
  arguments of the calls of \<^verbatim>\<open>expose_vectors\<close>, in the order of the calls.\<close>

fun visited_hosts :: "event list \<Rightarrow> person_ptr list" where
  "visited_hosts [] = []"
| "visited_hosts (UpdateSchedule h day # evs) = h # visited_hosts evs"
| "visited_hosts (e # evs) = visited_hosts evs"

fun exposed_hosts :: "event list \<Rightarrow> person_ptr list" where
  "exposed_hosts [] = []"
| "exposed_hosts (BecomeExposed h d day # evs) = h # exposed_hosts evs"
| "exposed_hosts (e # evs) = exposed_hosts evs"

fun vector_exposures :: "event list \<Rightarrow> (disease_id \<times> int) list" where
  "vector_exposures [] = []"
| "vector_exposures (ExposeVectors d n # evs) = (d, n) # vector_exposures evs"
| "vector_exposures (e # evs) = vector_exposures evs"

subsection \<open>Well-formed inputs\<close>

text \<open>The invariants the data model of the spec gives for the inputs: the two
  efficiencies are probabilities, the bite rate and the counts are not negative, the place
  is occupied, and a random draw is not negative.\<close>

fun probability :: "double \<Rightarrow> bool" where
  "probability (Fin a) = (0 \<le> a \<and> a \<le> 1)"
| "probability x = False"

fun non_negative :: "double \<Rightarrow> bool" where
  "non_negative (Fin a) = (0 \<le> a)"
| "non_negative x = False"

definition well_formed :: "globals \<Rightarrow> disease_id \<Rightarrow> world \<Rightarrow> bool" where
  "well_formed g d w =
     (non_negative (get_bite_rate g) \<and> probability (get_infection_efficiency g) \<and>
      probability (get_transmission_efficiency g) \<and>
      0 < get_size (the_place w) \<and>
      list_all (\<lambda>k. 0 \<le> get_number_of_infectious_people (the_place w) k)
        [0..<get_number_of_diseases g] \<and>
      0 \<le> get_infectious_vectors (the_place w) d \<and>
      0 \<le> random_stream w (draws_consumed w))"

subsection \<open>A concrete run\<close>

text \<open>A place with three enrolled hosts, of which the second is absent, ten susceptible
  vectors, one infectious host of disease 0 and none of disease 1, and three infectious
  vectors of each disease. With infection efficiency 1 every susceptible vector is
  infected; with transmission efficiency 1/2 and bite rate 1 the expected number of host
  infections is 3/2.\<close>

definition example_place :: place where
  "example_place =
     \<lparr>is_open = (\<lambda>day. True), should_be_open = (\<lambda>day d. True),
      have_vectors_been_infected_today = False,
      get_susceptible_vectors = 10, get_size = 3,
      get_number_of_infectious_people = (\<lambda>d. if d = 0 then 1 else 0),
      get_infectious_vectors = (\<lambda>d. 3),
      get_enrollees = [10, 11, 12]\<rparr>"

definition example_people :: "person_ptr \<Rightarrow> person" where
  "example_people h = \<lparr>is_present = (\<lambda>day. h \<noteq> 11), is_susceptible = (\<lambda>d. True)\<rparr>"

definition example_world :: world where
  "example_world =
     \<lparr>the_place = example_place, people = example_people,
      random_stream = (\<lambda>n. 1 / 4), draws_consumed = 0, calls = []\<rparr>"

definition example_globals :: globals where
  "example_globals =
     \<lparr>get_transmissibility = (\<lambda>d. Fin 1), get_number_of_diseases = 2, DISEASE_TYPES = 2,
      get_infection_efficiency = Fin 1, get_transmission_efficiency = Fin (1 / 2),
      get_bite_rate = Fin 1\<rparr>"

text \<open>The same place closed on every day, and the same place without susceptible
  vectors.\<close>

definition closed_world :: world where
  "closed_world = example_world\<lparr>the_place := example_place\<lparr>is_open := (\<lambda>day. False)\<rparr>\<rparr>"

definition no_vectors_world :: world where
  "no_vectors_world = example_world\<lparr>the_place := example_place\<lparr>get_susceptible_vectors := 0\<rparr>\<rparr>"

text \<open>An index vector that holds a permutation of the three positions, and the index
  vector of three positions as \<^verbatim>\<open>resize\<close> followed by the loop of lines 152-154 would
  leave it.\<close>

definition sized_index :: int_vector where
  "sized_index = \<lparr>vsize = 3, storage = [0, 1, 2]\<rparr>"


section \<open>Auxiliary lemmas\<close>

lemma d_pow_unit:
  assumes "0 \<le> a" "a \<le> 1" "0 \<le> x"
  shows "\<exists>q. d_pow (Fin a) (Fin x) = Fin q \<and> 0 \<le> q \<and> q \<le> 1"
proof (cases "x = 0 \<or> a = 1 \<or> a = 0")
  case True
  then show ?thesis using assms by (auto simp: d_pow_def)
next
  case False
  then have "0 < a" "a < 1" "0 < x" using assms by auto
  then have "a powr x \<le> 1" by (simp add: powr_le1)
  then show ?thesis using False \<open>0 < a\<close> by (auto simp: d_pow_def)
qed

lemma prob_formula_unit:
  assumes "0 \<le> b" "0 \<le> e" "e \<le> 1" "0 \<le> n" "0 < th"
  shows "\<exists>p. d_sub (Fin 1) (d_pow (d_sub (Fin 1) (Fin e))
          (d_div (d_mul (Fin b) (d_of_int n)) (d_of_int th))) = Fin p \<and> 0 \<le> p \<and> p \<le> 1"
proof -
  have x: "0 \<le> b * real_of_int n / real_of_int th" using assms by simp
  have a: "0 \<le> 1 - e" "1 - e \<le> 1" using assms by auto
  from d_pow_unit[OF a x] obtain q where
    "d_pow (Fin (1 - e)) (Fin (b * real_of_int n / real_of_int th)) = Fin q" "0 \<le> q" "q \<le> 1" by blast
  then show ?thesis using assms by (simp add: d_of_int_def)
qed

lemma prob_infection_unit:
  assumes "get_bite_rate g = Fin b" "0 \<le> b"
    and "get_infection_efficiency g = Fin ie" "0 \<le> ie" "ie \<le> 1"
    and "get_transmission_efficiency g = Fin te" "0 \<le> te" "te \<le> 1"
    and "0 \<le> n" "0 < th"
  shows "(\<exists>p. vector_prob_infection g n th = Fin p \<and> 0 \<le> p \<and> p \<le> 1) \<and>
         (\<exists>p. host_prob_infection g n th = Fin p \<and> 0 \<le> p \<and> p \<le> 1)"
  using assms prob_formula_unit[of b ie n th] prob_formula_unit[of b te n th]
  by (simp add: vector_prob_infection_def host_prob_infection_def)

lemma select_max_exposed_hosts_Fin:
  "select_max_exposed_hosts (Fin e) w =
     Inr (if random_stream w (draws_consumed w) < e - of_int \<lfloor>e\<rfloor> then \<lfloor>e\<rfloor> + 1 else \<lfloor>e\<rfloor>,
          w\<lparr>draws_consumed := Suc (draws_consumed w)\<rparr>)"
  by (simp add: select_max_exposed_hosts_def draw_random_def d_of_int_def trunc_real_def)

lemma immunity_loop_frame:
  "the_place (immunity_loop g h d k w) = the_place w \<and>
   random_stream (immunity_loop g h d k w) = random_stream w \<and>
   draws_consumed (immunity_loop g h d k w) = draws_consumed w"
proof (induction g h d k w rule: immunity_loop.induct)
  case (1 g h d k w)
  show ?case
  proof (cases "k < DISEASE_TYPES g")
    case True
    with 1 show ?thesis
      by (subst (1 2 3) immunity_loop.simps) (simp add: become_unsusceptible_def)
  next
    case False
    then show ?thesis by (simp add: immunity_loop.simps)
  qed
qed

lemma immunity_loop_calls:
  "calls (immunity_loop g h d k w) =
     calls w @ map (BecomeUnsusceptible h) (filter (\<lambda>y. y \<noteq> d) [k..<DISEASE_TYPES g])"
proof (induction g h d k w rule: immunity_loop.induct)
  case (1 g h d k w)
  show ?case
  proof (cases "k < DISEASE_TYPES g")
    case True
    with 1 show ?thesis
      by (subst immunity_loop.simps) (simp add: become_unsusceptible_def upt_conv_Cons)
  next
    case False
    then show ?thesis by (simp add: immunity_loop.simps)
  qed
qed

lemma immunity_loop_present:
  "is_present (people (immunity_loop g h d k w) h') = is_present (people w h')"
proof (induction g h d k w rule: immunity_loop.induct)
  case (1 g h d k w)
  show ?case
  proof (cases "k < DISEASE_TYPES g")
    case True
    with 1 show ?thesis
      by (subst immunity_loop.simps) (simp add: become_unsusceptible_def)
  next
    case False
    then show ?thesis by (simp add: immunity_loop.simps)
  qed
qed

lemma immunity_loop_susceptible:
  "is_susceptible (people (immunity_loop g h d k w) h') y =
     (is_susceptible (people w h') y \<and> \<not> (h' = h \<and> k \<le> y \<and> y < DISEASE_TYPES g \<and> y \<noteq> d))"
proof (induction g h d k w rule: immunity_loop.induct)
  case (1 g h d k w)
  show ?case
  proof (cases "k < DISEASE_TYPES g")
    case True
    with 1 show ?thesis
      by (subst immunity_loop.simps) (auto simp add: become_unsusceptible_def)
  next
    case False
    then show ?thesis by (simp add: immunity_loop.simps)
  qed
qed

lemma visited_hosts_append: "visited_hosts (xs @ ys) = visited_hosts xs @ visited_hosts ys"
  by (induction xs rule: visited_hosts.induct) simp_all

lemma exposed_hosts_append: "exposed_hosts (xs @ ys) = exposed_hosts xs @ exposed_hosts ys"
  by (induction xs rule: exposed_hosts.induct) simp_all

lemma vector_exposures_append:
  "vector_exposures (xs @ ys) = vector_exposures xs @ vector_exposures ys"
  by (induction xs rule: vector_exposures.induct) simp_all

lemma visited_hosts_unsusceptible [simp]:
  "visited_hosts (map (BecomeUnsusceptible h) ys) = []"
  by (induction ys) simp_all

lemma exposed_hosts_unsusceptible [simp]:
  "exposed_hosts (map (BecomeUnsusceptible h) ys) = []"
  by (induction ys) simp_all

lemma vector_exposures_unsusceptible [simp]:
  "vector_exposures (map (BecomeUnsusceptible h) ys) = []"
  by (induction ys) simp_all

lemma attempt_loop_rule:
  assumes "attempt_loop g day d idx N j w = Inr w'"
    and "P j w"
    and "\<And>i v v'. j \<le> i \<Longrightarrow> int i < N \<Longrightarrow> P i v \<Longrightarrow> attempt g day d idx i v = Inr v' \<Longrightarrow> P (Suc i) v'"
  shows "P (max j (nat N)) w'"
  using assms
proof (induction g day d idx N j w rule: attempt_loop.induct)
  case (1 g day d idx N j w)
  show ?case
  proof (cases "int j < N")
    case False
    then have "w' = w" using "1.prems"(1) by (simp add: attempt_loop.simps)
    moreover have "max j (nat N) = j" using False by simp
    ultimately show ?thesis using "1.prems"(2) by simp
  next
    case True
    then obtain w1 where a: "attempt g day d idx j w = Inr w1"
      and l: "attempt_loop g day d idx N (Suc j) w1 = Inr w'"
      using "1.prems"(1) by (subst (asm) attempt_loop.simps) (auto split: sum.splits)
    have p1: "P (Suc j) w1" using "1.prems"(3)[OF _ True "1.prems"(2) a] by simp
    have "P (max (Suc j) (nat N)) w'"
    proof (rule "1.IH"[OF True a l p1])
      fix i v v' assume "Suc j \<le> i" "int i < N" "P i v" "attempt g day d idx i v = Inr v'"
      then show "P (Suc i) v'" using "1.prems"(3)[of i v v'] by simp
    qed
    moreover have "max (Suc j) (nat N) = max j (nat N)" using True by simp
    ultimately show ?thesis by simp
  qed
qed

lemma attempt_effect:
  assumes "attempt g day d idx j w = Inr w'"
  obtains k h where
    "vector_get idx j = Some k" "0 \<le> k" "k < int (length (get_enrollees (the_place w)))"
    "h = get_enrollees (the_place w) ! nat k"
    "the_place w' = the_place w" "random_stream w' = random_stream w"
    "draws_consumed w' = draws_consumed w"
    "calls w' = calls w @ UpdateSchedule h day #
       (if is_present (people w h) day \<and> is_susceptible (people w h) d
        then BecomeExposed h d day #
             map (BecomeUnsusceptible h) (filter (\<lambda>y. y \<noteq> d) [0..<DISEASE_TYPES g])
        else [])"
    "\<And>h'. is_present (people w' h') = is_present (people w h')"
    "\<And>h' y. is_susceptible (people w' h') y =
       (is_susceptible (people w h') y \<and>
        \<not> (h' = h \<and> is_present (people w h) day \<and> is_susceptible (people w h) d \<and>
           (y = d \<or> y < DISEASE_TYPES g)))"
proof -
  from assms obtain k where k: "vector_get idx j = Some k" "0 \<le> k"
      "k < int (length (get_enrollees (the_place w)))"
    by (auto simp: attempt_def split: option.splits if_splits)
  define h where "h = get_enrollees (the_place w) ! nat k"
  let ?ok = "is_present (people w h) day \<and> is_susceptible (people w h) d"
  have w': "w' = (if ?ok then immunity_loop g h d 0 (become_exposed h d day (update_schedule h day w))
                 else update_schedule h day w)"
    using assms k by (auto simp: attempt_def h_def Let_def update_schedule_def split: if_splits)
  have f: "the_place w' = the_place w" "random_stream w' = random_stream w"
      "draws_consumed w' = draws_consumed w"
      by (simp_all add: w' immunity_loop_frame become_exposed_def update_schedule_def)
  have c: "calls w' = calls w @ UpdateSchedule h day #
       (if ?ok then BecomeExposed h d day #
             map (BecomeUnsusceptible h) (filter (\<lambda>y. y \<noteq> d) [0..<DISEASE_TYPES g])
        else [])"
      by (simp add: w' immunity_loop_calls become_exposed_def update_schedule_def)
  have p: "is_present (people w' h') = is_present (people w h')" for h'
      by (simp add: w' immunity_loop_present become_exposed_def update_schedule_def)
  have s: "is_susceptible (people w' h') y =
       (is_susceptible (people w h') y \<and>
        \<not> (h' = h \<and> is_present (people w h) day \<and> is_susceptible (people w h) d \<and>
           (y = d \<or> y < DISEASE_TYPES g)))" for h' y
      by (auto simp add: w' immunity_loop_susceptible become_exposed_def update_schedule_def)
  show ?thesis
    by (rule that[OF k h_def f c p s])
qed

lemma attempt_loop_frame:
  assumes "attempt_loop g day d idx N j w = Inr w'"
  shows "the_place w' = the_place w \<and> random_stream w' = random_stream w \<and>
         draws_consumed w' = draws_consumed w \<and>
         (\<forall>h. is_present (people w' h) = is_present (people w h)) \<and>
         (\<forall>h y. is_susceptible (people w' h) y \<longrightarrow> is_susceptible (people w h) y)"
proof -
  let ?P = "\<lambda>(i::nat) v. the_place v = the_place w \<and> random_stream v = random_stream w \<and>
         draws_consumed v = draws_consumed w \<and>
         (\<forall>h. is_present (people v h) = is_present (people w h)) \<and>
         (\<forall>h y. is_susceptible (people v h) y \<longrightarrow> is_susceptible (people w h) y)"
  have "?P (max j (nat N)) w'"
  proof (rule attempt_loop_rule[OF assms, where P = ?P])
    show "?P j w" by simp
  next
    fix i v v'
    assume inv: "?P i v" and a: "attempt g day d idx i v = Inr v'"
    from a show "?P (Suc i) v'"
    proof (rule attempt_effect)
      fix k h
      assume "the_place v' = the_place v" "random_stream v' = random_stream v"
        "draws_consumed v' = draws_consumed v"
        "\<And>h'. is_present (people v' h') = is_present (people v h')"
        "\<And>h' y. is_susceptible (people v' h') y =
           (is_susceptible (people v h') y \<and>
            \<not> (h' = h \<and> is_present (people v h) day \<and> is_susceptible (people v h) d \<and>
               (y = d \<or> y < DISEASE_TYPES g)))"
      with inv show "?P (Suc i) v'" by simp
    qed
  qed
  then show ?thesis by simp
qed

text \<open>The calls made by the attempt loop.\<close>

lemma attempt_loop_calls:
  assumes "attempt_loop g day d idx N j w = Inr w'"
  shows "\<exists>evs. calls w' = calls w @ evs \<and>
           visited_hosts evs =
             map (\<lambda>i. get_enrollees (the_place w) ! nat (storage idx ! i)) [j..<max j (nat N)] \<and>
           subseq (exposed_hosts evs) (visited_hosts evs) \<and>
           (\<forall>e \<in> set evs. \<not> is_reset e) \<and> vector_exposures evs = [] \<and>
           (\<forall>h x dy. BecomeExposed h x dy \<in> set evs \<longrightarrow> x = d \<and> dy = day) \<and>
           (\<forall>h \<in> set (exposed_hosts evs).
              is_present (people w h) day \<and> is_susceptible (people w h) d \<and>
              (\<forall>y < DISEASE_TYPES g. y \<noteq> d \<longrightarrow>
                 BecomeUnsusceptible h y \<in> set evs \<and> \<not> is_susceptible (people w' h) y))"
proof -
  let ?sel = "\<lambda>i. get_enrollees (the_place w) ! nat (storage idx ! i)"
  let ?P = "\<lambda>(i::nat) v. the_place v = the_place w \<and>
         (\<forall>h. is_present (people v h) = is_present (people w h)) \<and>
         (\<forall>h y. is_susceptible (people v h) y \<longrightarrow> is_susceptible (people w h) y) \<and>
         (\<exists>evs. calls v = calls w @ evs \<and> visited_hosts evs = map ?sel [j..<i] \<and>
           subseq (exposed_hosts evs) (visited_hosts evs) \<and>
           (\<forall>e \<in> set evs. \<not> is_reset e) \<and> vector_exposures evs = [] \<and>
           (\<forall>h x dy. BecomeExposed h x dy \<in> set evs \<longrightarrow> x = d \<and> dy = day) \<and>
           (\<forall>h \<in> set (exposed_hosts evs).
              is_present (people w h) day \<and> is_susceptible (people w h) d \<and>
              (\<forall>y < DISEASE_TYPES g. y \<noteq> d \<longrightarrow>
                 BecomeUnsusceptible h y \<in> set evs \<and> \<not> is_susceptible (people v h) y)))"
  have "?P (max j (nat N)) w'"
  proof (rule attempt_loop_rule[OF assms, where P = ?P])
    show "?P j w" by simp
  next
    fix i v v'
    assume ji: "j \<le> i" and inv: "?P i v" and a: "attempt g day d idx i v = Inr v'"
    from inv obtain evs where evs: "calls v = calls w @ evs" "visited_hosts evs = map ?sel [j..<i]"
      "subseq (exposed_hosts evs) (visited_hosts evs)"
      "\<forall>e \<in> set evs. \<not> is_reset e" "vector_exposures evs = []"
      "\<forall>h x dy. BecomeExposed h x dy \<in> set evs \<longrightarrow> x = d \<and> dy = day"
      "\<forall>h \<in> set (exposed_hosts evs).
              is_present (people w h) day \<and> is_susceptible (people w h) d \<and>
              (\<forall>y < DISEASE_TYPES g. y \<noteq> d \<longrightarrow>
                 BecomeUnsusceptible h y \<in> set evs \<and> \<not> is_susceptible (people v h) y)"
      by blast
    from a show "?P (Suc i) v'"
    proof (rule attempt_effect)
      fix k h
      assume k: "vector_get idx i = Some k" and h: "h = get_enrollees (the_place v) ! nat k"
        and pl: "the_place v' = the_place v"
        and c: "calls v' = calls v @ UpdateSchedule h day #
          (if is_present (people v h) day \<and> is_susceptible (people v h) d
           then BecomeExposed h d day #
             map (BecomeUnsusceptible h) (filter (\<lambda>y. y \<noteq> d) [0..<DISEASE_TYPES g])
           else [])"
        and pr: "\<And>h'. is_present (people v' h') = is_present (people v h')"
        and su: "\<And>h' y. is_susceptible (people v' h') y =
           (is_susceptible (people v h') y \<and>
            \<not> (h' = h \<and> is_present (people v h) day \<and> is_susceptible (people v h) d \<and>
               (y = d \<or> y < DISEASE_TYPES g)))"
      let ?ok = "is_present (people v h) day \<and> is_susceptible (people v h) d"
      let ?new = "UpdateSchedule h day #
          (if ?ok then BecomeExposed h d day #
             map (BecomeUnsusceptible h) (filter (\<lambda>y. y \<noteq> d) [0..<DISEASE_TYPES g])
           else [])"
      have hsel: "h = ?sel i"
        using k h inv by (auto simp: vector_get_def split: if_splits)
      have 1: "calls v' = calls w @ (evs @ ?new)" using c evs(1) by simp
      have 2: "visited_hosts (evs @ ?new) = map ?sel [j..<Suc i]"
        using evs(2) ji hsel by (simp add: visited_hosts_append)
      have 3: "subseq (exposed_hosts (evs @ ?new)) (visited_hosts (evs @ ?new))"
        using evs(3) by (auto simp: visited_hosts_append exposed_hosts_append intro!: list_emb_append_mono)
      have 4: "\<forall>e \<in> set (evs @ ?new). \<not> is_reset e" using evs(4) by auto
      have 5: "vector_exposures (evs @ ?new) = []"
        using evs(5) by (simp add: vector_exposures_append)
      have 6: "\<forall>h' \<in> set (exposed_hosts (evs @ ?new)).
              is_present (people w h') day \<and> is_susceptible (people w h') d \<and>
              (\<forall>y < DISEASE_TYPES g. y \<noteq> d \<longrightarrow>
                 BecomeUnsusceptible h' y \<in> set (evs @ ?new) \<and> \<not> is_susceptible (people v' h') y)"
      proof
        fix h' assume "h' \<in> set (exposed_hosts (evs @ ?new))"
        then consider (old) "h' \<in> set (exposed_hosts evs)" | (new) "h' = h" "?ok"
          by (auto simp: exposed_hosts_append split: if_splits)
        then show "is_present (people w h') day \<and> is_susceptible (people w h') d \<and>
              (\<forall>y < DISEASE_TYPES g. y \<noteq> d \<longrightarrow>
                 BecomeUnsusceptible h' y \<in> set (evs @ ?new) \<and> \<not> is_susceptible (people v' h') y)"
        proof cases
          case old
          with evs(7) show ?thesis by (auto simp: su)
        next
          case new
          with inv show ?thesis by (auto simp: su)
        qed
      qed
      have 10: "\<forall>h x dy. BecomeExposed h x dy \<in> set (evs @ ?new) \<longrightarrow> x = d \<and> dy = day"
        using evs(6) by auto
      have 7: "the_place v' = the_place w" using pl inv by simp
      have 8: "\<forall>h. is_present (people v' h) = is_present (people w h)" using pr inv by simp
      have 9: "\<forall>h y. is_susceptible (people v' h) y \<longrightarrow> is_susceptible (people w h) y"
        using su inv by simp
      show "?P (Suc i) v'" using 1 2 3 4 5 6 7 8 9 10 by blast
    qed
  qed
  then show ?thesis by simp
qed

lemma exposed_hosts_iff:
  "h \<in> set (exposed_hosts evs) \<longleftrightarrow> (\<exists>x dy. BecomeExposed h x dy \<in> set evs)"
  by (induction evs rule: exposed_hosts.induct) auto


lemma fill_index_storage:
  assumes "length (storage v) = n" "i \<le> n"
  shows "fill_index n i v = Some (v\<lparr>storage := take i (storage v) @ map int [i..<n]\<rparr>)"
  using assms
proof (induction n i v rule: fill_index.induct)
  case (1 n i v)
  show ?case
  proof (cases "i < n")
    case False
    with "1.prems" show ?thesis by (simp add: fill_index.simps)
  next
    case True
    let ?v = "v\<lparr>storage := (storage v)[i := int i]\<rparr>"
    have s: "vector_set i (int i) v = Some ?v" using True "1.prems" by (simp add: vector_set_def)
    have "fill_index n (Suc i) ?v = Some (?v\<lparr>storage := take (Suc i) (storage ?v) @ map int [Suc i..<n]\<rparr>)"
      using "1.IH"[OF True s] True "1.prems" by simp
    moreover have "take (Suc i) (storage ?v) @ map int [Suc i..<n] = take i (storage v) @ map int [i..<n]"
      using True "1.prems" by (simp add: take_Suc_conv_app_nth upt_conv_Cons)
    ultimately show ?thesis using True s by (subst fill_index.simps) simp
  qed
qed

lemma build_shuffle_index_identity:
  "build_shuffle_index n w = Inr (\<lparr>vsize = 0, storage = map int [0..<n]\<rparr>, w)"
proof -
  have r: "reserve n empty_vector = \<lparr>vsize = 0, storage = replicate n 0\<rparr>"
    by (simp add: reserve_def empty_vector_def)
  have "fill_index n 0 \<lparr>vsize = 0, storage = replicate n 0\<rparr> = Some \<lparr>vsize = 0, storage = map int [0..<n]\<rparr>"
    using fill_index_storage[of "\<lparr>vsize = 0, storage = replicate n 0\<rparr>" n 0] by simp
  then show ?thesis by (simp add: build_shuffle_index_def r FYShuffle_def)
qed

lemma attempt_total:
  assumes "j < length (storage idx)" "0 \<le> storage idx ! j"
    "storage idx ! j < int (length (get_enrollees (the_place w)))"
  shows "\<exists>w'. attempt g day d idx j w = Inr w'"
  using assms by (simp add: attempt_def vector_get_def Let_def)

lemma attempt_loop_total:
  assumes "\<forall>i. j \<le> i \<and> int i < N \<longrightarrow> i < length (storage idx) \<and> 0 \<le> storage idx ! i \<and>
             storage idx ! i < int (length (get_enrollees (the_place w)))"
  shows "\<exists>w'. attempt_loop g day d idx N j w = Inr w'"
  using assms
proof (induction g day d idx N j w rule: attempt_loop.induct)
  case (1 g day d idx N j w)
  show ?case
  proof (cases "int j < N")
    case False
    then show ?thesis by (simp add: attempt_loop.simps)
  next
    case True
    with "1.prems" obtain w1 where a: "attempt g day d idx j w = Inr w1"
      using attempt_total[of j idx w g day d] by auto
    have pl: "the_place w1 = the_place w" using a by (rule attempt_effect)
    have "\<exists>w'. attempt_loop g day d idx N (Suc j) w1 = Inr w'"
      by (rule "1.IH"[OF True a]) (use "1.prems" pl in auto)
    then show ?thesis using True a by (subst attempt_loop.simps) simp
  qed
qed

lemma infect_hosts_normal_path:
  assumes "get_enrollees (the_place w) \<noteq> []"
    and "get_infectious_vectors (the_place w) d \<noteq> 0"
    and "get_transmission_efficiency g \<noteq> Fin 0"
    and "expected_infections g (get_infectious_vectors (the_place w) d)
           (int (length (get_enrollees (the_place w)))) = Fin e"
  shows "infect_hosts g day d w =
     attempt_loop g day d \<lparr>vsize = 0, storage = map int [0..<length (get_enrollees (the_place w))]\<rparr>
       (if random_stream w (draws_consumed w) < e - of_int \<lfloor>e\<rfloor> then \<lfloor>e\<rfloor> + 1 else \<lfloor>e\<rfloor>) 0
       (w\<lparr>draws_consumed := Suc (draws_consumed w)\<rparr>)"
  using assms
  by (simp add: infect_hosts_def Let_def select_max_exposed_hosts_Fin
      build_shuffle_index_identity)

lemma expected_infections_bounds:
  assumes "get_bite_rate g = Fin b" "0 \<le> b"
    and "get_infection_efficiency g = Fin ie" "0 \<le> ie" "ie \<le> 1"
    and "get_transmission_efficiency g = Fin te" "0 \<le> te" "te \<le> 1"
    and "0 \<le> n" "0 < th"
  shows "\<exists>e. expected_infections g n th = Fin e \<and> 0 \<le> e \<and> e \<le> of_int th"
proof -
  from prob_infection_unit[OF assms] obtain p where
    p: "host_prob_infection g n th = Fin p" "0 \<le> p" "p \<le> 1" by blast
  have "real_of_int th * p \<le> real_of_int th * 1"
    using p assms by (intro mult_left_mono) auto
  then show ?thesis using p assms by (simp add: expected_infections_def d_of_int_def)
qed

lemma rounded_count_le:
  fixes e :: real
  assumes "0 \<le> e" "e \<le> of_int th" "0 \<le> u"
  shows "(if u < e - of_int \<lfloor>e\<rfloor> then \<lfloor>e\<rfloor> + 1 else \<lfloor>e\<rfloor>) \<le> th"
    and "0 \<le> (if u < e - of_int \<lfloor>e\<rfloor> then \<lfloor>e\<rfloor> + 1 else \<lfloor>e\<rfloor>)"
proof -
  have f: "\<lfloor>e\<rfloor> \<le> th" using assms by (simp add: floor_le_iff)
  show "(if u < e - of_int \<lfloor>e\<rfloor> then \<lfloor>e\<rfloor> + 1 else \<lfloor>e\<rfloor>) \<le> th"
  proof (cases "u < e - of_int \<lfloor>e\<rfloor>")
    case False
    then show ?thesis using f by simp
  next
    case True
    then have "of_int \<lfloor>e\<rfloor> < e" using assms by linarith
    then have "of_int \<lfloor>e\<rfloor> < (of_int th :: real)" using assms by linarith
    then have "\<lfloor>e\<rfloor> < th" by simp
    then show ?thesis using True by simp
  qed
  show "0 \<le> (if u < e - of_int \<lfloor>e\<rfloor> then \<lfloor>e\<rfloor> + 1 else \<lfloor>e\<rfloor>)"
    using assms by (simp add: zero_le_floor) 
qed

lemma exposed_vectors_value:
  "tih \<noteq> 0 \<Longrightarrow>
   exposed_vectors T ih tih = Some (trunc_real (of_int T * (of_int ih / of_int tih)))"
  by (simp add: exposed_vectors_def d_of_int_def)

lemma expose_loop_result:
  assumes "tih \<noteq> 0"
  shows "expose_loop T ihs tih diseases d (w, acc) =
     Inr (w\<lparr>calls := calls w @
               map (\<lambda>k. ExposeVectors k (trunc_real (of_int T * (of_int (ihs ! k) / of_int tih))))
                 [d..<diseases]\<rparr>,
          acc + sum_list (map (\<lambda>k. trunc_real (of_int T * (of_int (ihs ! k) / of_int tih)))
                 [d..<diseases]))"
  using assms
proof (induction T ihs tih diseases d "(w, acc)" arbitrary: w acc rule: expose_loop.induct)
  case (1 T ihs tih diseases d w acc)
  show ?case
  proof (cases "d < diseases")
    case False
    then show ?thesis by (simp add: expose_loop.simps)
  next
    case True
    have e: "exposed_vectors T (ihs ! d) tih =
        Some (trunc_real (of_int T * (of_int (ihs ! d) / of_int tih)))"
      by (rule exposed_vectors_value[OF "1.prems"])
    show ?thesis
      using True e "1.hyps"[OF True e "1.prems"]
      by (subst expose_loop.simps) (simp add: expose_vectors_def upt_conv_Cons)
  qed
qed

lemma infect_vectors_guard:
  assumes "get_susceptible_vectors (the_place w) = 0 \<or> total_infectious_hosts g w = 0"
  shows "infect_vectors g day w = Inr w"
  using assms by (auto simp: infect_vectors_def Let_def)

lemma infect_vectors_normal_path:
  assumes "get_susceptible_vectors (the_place w) \<noteq> 0" "total_infectious_hosts g w \<noteq> 0"
    and "total_infections g w = Some T"
  shows "infect_vectors g day w =
     Inr (mark_vectors_as_infected_today
       (w\<lparr>calls := calls w @
          map (\<lambda>k. ExposeVectors k (trunc_real (of_int T *
                 (of_int (get_number_of_infectious_people (the_place w) k) /
                  of_int (total_infectious_hosts g w)))))
            [0..<get_number_of_diseases g]\<rparr>))"
proof -
  have e: "map (\<lambda>k. ExposeVectors k (trunc_real (of_int T *
            (of_int (infectious_hosts g w ! k) / of_int (total_infectious_hosts g w)))))
          [0..<get_number_of_diseases g] =
        map (\<lambda>k. ExposeVectors k (trunc_real (of_int T *
            (of_int (get_number_of_infectious_people (the_place w) k) /
             of_int (total_infectious_hosts g w)))))
          [0..<get_number_of_diseases g]"
    by (rule map_cong) (simp_all add: infectious_hosts_def)
  show ?thesis
    unfolding e[symmetric] using assms by (simp add: infect_vectors_def Let_def expose_loop_result)
qed

lemma infect_vectors_fault:
  assumes "get_susceptible_vectors (the_place w) \<noteq> 0" "total_infectious_hosts g w \<noteq> 0"
    and "total_infections g w = None"
  shows "infect_vectors g day w = Inl NonFiniteToInt"
  using assms by (simp add: infect_vectors_def Let_def)






lemma new_calls_append: "calls w' = calls w @ evs \<Longrightarrow> new_calls w w' = evs"
  by (simp add: new_calls_def)

lemma infect_vectors_effect:
  assumes "infect_vectors g day w = Inr w'"
  shows "people w' = people w \<and> random_stream w' = random_stream w \<and>
         draws_consumed w' = draws_consumed w \<and>
         (\<exists>evs. calls w' = calls w @ evs \<and> (\<forall>e \<in> set evs. \<not> is_reset e) \<and>
            visited_hosts evs = [] \<and> exposed_hosts evs = [])"
proof (cases "get_susceptible_vectors (the_place w) = 0 \<or> total_infectious_hosts g w = 0")
  case True
  then show ?thesis using assms by (simp add: infect_vectors_guard)
next
  case False
  then obtain T where T: "total_infections g w = Some T"
    using assms by (cases "total_infections g w") (auto simp: infect_vectors_fault)
  let ?evs = "map (\<lambda>k. ExposeVectors k (trunc_real (of_int T *
                 (of_int (get_number_of_infectious_people (the_place w) k) /
                  of_int (total_infectious_hosts g w)))))
            [0..<get_number_of_diseases g]"
  have v: "visited_hosts (map (\<lambda>k. ExposeVectors k (f k)) ks) = []"
    and e: "exposed_hosts (map (\<lambda>k. ExposeVectors k (f k)) ks) = []" for f ks
    by (induction ks) simp_all
  have "w' = mark_vectors_as_infected_today (w\<lparr>calls := calls w @ ?evs\<rparr>)"
    using infect_vectors_normal_path[OF _ _ T, of day] False assms by simp
  then have "people w' = people w" "random_stream w' = random_stream w"
    "draws_consumed w' = draws_consumed w"
    "calls w' = calls w @ (?evs @ [MarkVectorsAsInfectedToday])"
    by (simp_all add: mark_vectors_as_infected_today_def)
  moreover have "\<forall>e \<in> set (?evs @ [MarkVectorsAsInfectedToday]). \<not> is_reset e" by auto
  moreover have "visited_hosts (?evs @ [MarkVectorsAsInfectedToday]) = []"
    "exposed_hosts (?evs @ [MarkVectorsAsInfectedToday]) = []"
    by (simp_all add: visited_hosts_append exposed_hosts_append v e)
  ultimately show ?thesis by blast
qed

lemma infect_hosts_cases:
  assumes "infect_hosts g day d w = Inr w'"
  shows "w' = w \<or>
     (\<exists>N. attempt_loop g day d
             \<lparr>vsize = 0, storage = map int [0..<length (get_enrollees (the_place w))]\<rparr> N 0
             (w\<lparr>draws_consumed := Suc (draws_consumed w)\<rparr>) = Inr w')"
proof (cases "get_enrollees (the_place w) = [] \<or> get_infectious_vectors (the_place w) d = 0 \<or>
    get_transmission_efficiency g = Fin 0")
  case True
  then show ?thesis using assms by (auto simp: infect_hosts_def Let_def split: if_splits)
next
  case False
  show ?thesis
  proof (cases "expected_infections g (get_infectious_vectors (the_place w) d)
           (int (length (get_enrollees (the_place w))))")
    case (Fin e)
    from infect_hosts_normal_path[OF _ _ _ Fin, of day] False assms show ?thesis by auto
  qed (use False assms in \<open>auto simp: infect_hosts_def Let_def select_max_exposed_hosts_def\<close>)
qed

lemma infect_hosts_calls:
  assumes "infect_hosts g day d w = Inr w'"
  shows "the_place w' = the_place w \<and>
    (\<exists>evs. calls w' = calls w @ evs \<and> (\<forall>e \<in> set evs. \<not> is_reset e) \<and> vector_exposures evs = [])"
  using infect_hosts_cases[OF assms]
proof
  assume "w' = w" then show ?thesis by simp
next
  assume "\<exists>N. attempt_loop g day d
             \<lparr>vsize = 0, storage = map int [0..<length (get_enrollees (the_place w))]\<rparr> N 0
             (w\<lparr>draws_consumed := Suc (draws_consumed w)\<rparr>) = Inr w'"
  then obtain N where l: "attempt_loop g day d
             \<lparr>vsize = 0, storage = map int [0..<length (get_enrollees (the_place w))]\<rparr> N 0
             (w\<lparr>draws_consumed := Suc (draws_consumed w)\<rparr>) = Inr w'" by blast
  from attempt_loop_frame[OF l] attempt_loop_calls[OF l] show ?thesis by auto
qed

lemma infect_hosts_total:
  assumes "well_formed g d w"
  shows "\<exists>w'. infect_hosts g day d w = Inr w'"
proof (cases "get_enrollees (the_place w) = [] \<or> get_infectious_vectors (the_place w) d = 0 \<or>
    get_transmission_efficiency g = Fin 0")
  case True
  then show ?thesis by (auto simp: infect_hosts_def Let_def)
next
  case False
  let ?th = "int (length (get_enrollees (the_place w)))"
  let ?u = "random_stream w (draws_consumed w)"
  from assms obtain b ie te where g: "get_bite_rate g = Fin b" "0 \<le> b"
    "get_infection_efficiency g = Fin ie" "0 \<le> ie" "ie \<le> 1"
    "get_transmission_efficiency g = Fin te" "0 \<le> te" "te \<le> 1"
    by (cases "get_bite_rate g"; cases "get_infection_efficiency g";
        cases "get_transmission_efficiency g") (auto simp: well_formed_def)
  have iv: "0 \<le> get_infectious_vectors (the_place w) d" and u: "0 \<le> ?u"
    using assms by (simp_all add: well_formed_def)
  have th: "0 < ?th" using False by simp
  from expected_infections_bounds[OF g iv th] obtain e where
    e: "expected_infections g (get_infectious_vectors (the_place w) d) ?th = Fin e"
       "0 \<le> e" "e \<le> of_int ?th" by blast
  let ?N = "if ?u < e - of_int \<lfloor>e\<rfloor> then \<lfloor>e\<rfloor> + 1 else \<lfloor>e\<rfloor>"
  have N: "?N \<le> ?th" by (rule rounded_count_le(1)[OF e(2,3) u])
  have "\<exists>w'. attempt_loop g day d \<lparr>vsize = 0, storage = map int [0..<length (get_enrollees (the_place w))]\<rparr>
       ?N 0 (w\<lparr>draws_consumed := Suc (draws_consumed w)\<rparr>) = Inr w'"
    by (rule attempt_loop_total) (use N in auto)
  then show ?thesis
    using infect_hosts_normal_path[OF _ _ _ e(1), of day] False by auto
qed

lemma vector_prob_finite:
  assumes "well_formed g d w"
  shows "\<exists>p. vector_prob_infection g (total_infectious_hosts g w) (get_size (the_place w)) = Fin p
     \<and> 0 \<le> p \<and> p \<le> 1"
proof -
  from assms obtain b ie te where g: "get_bite_rate g = Fin b" "0 \<le> b"
    "get_infection_efficiency g = Fin ie" "0 \<le> ie" "ie \<le> 1"
    "get_transmission_efficiency g = Fin te" "0 \<le> te" "te \<le> 1"
    by (cases "get_bite_rate g"; cases "get_infection_efficiency g";
        cases "get_transmission_efficiency g") (auto simp: well_formed_def)
  have "0 \<le> total_infectious_hosts g w"
    unfolding total_infectious_hosts_def infectious_hosts_def
    using assms by (intro sum_list_nonneg) (auto simp: well_formed_def list_all_iff)
  moreover have "0 < get_size (the_place w)" using assms by (simp add: well_formed_def)
  ultimately show ?thesis using prob_infection_unit[OF g] by blast
qed

lemma infect_vectors_total:
  assumes "well_formed g d w"
  shows "\<exists>w'. infect_vectors g day w = Inr w'"
proof (cases "get_susceptible_vectors (the_place w) = 0 \<or> total_infectious_hosts g w = 0")
  case True
  then show ?thesis by (simp add: infect_vectors_guard)
next
  case False
  from vector_prob_finite[OF assms] obtain T where "total_infections g w = Some T"
    by (auto simp: total_infections_def d_of_int_def)
  from infect_vectors_normal_path[OF _ _ this, of day] False show ?thesis by simp
qed

lemmas example_defs = example_world_def example_place_def example_people_def example_globals_def


lemma example_expected: "expected_infections example_globals 3 3 = Fin (3/2)"
  by (simp add: expected_infections_def host_prob_infection_def example_defs d_of_int_def d_pow_def)


lemma example_infect_hosts:
  "map_sum id calls (infect_hosts example_globals 0 0 (example_world\<lparr>random_stream := rs\<rparr>)) =
     Inr (if rs 0 < 1 / 2
          then [UpdateSchedule 10 0, BecomeExposed 10 0 0, BecomeUnsusceptible 10 1, UpdateSchedule 11 0]
          else [UpdateSchedule 10 0, BecomeExposed 10 0 0, BecomeUnsusceptible 10 1])"
proof -
  have e: "expected_infections example_globals
      (get_infectious_vectors (the_place (example_world\<lparr>random_stream := rs\<rparr>)) 0)
      (int (length (get_enrollees (the_place (example_world\<lparr>random_stream := rs\<rparr>))))) = Fin (3/2)"
    using example_expected by (simp add: example_world_def example_place_def)
  have f: "\<lfloor>3 / 2 :: real\<rfloor> = 1" by linarith
  show ?thesis
    apply (subst infect_hosts_normal_path[OF _ _ _ e])
       apply (simp_all add: example_defs f)
    apply (auto simp add: attempt_loop.simps attempt_def vector_get_def Let_def update_schedule_def
        become_exposed_def immunity_loop.simps become_unsusceptible_def example_defs)
    done
qed

lemma well_formed_cong:
  assumes "get_size (the_place w') = get_size (the_place w)"
    "get_number_of_infectious_people (the_place w') = get_number_of_infectious_people (the_place w)"
    "get_infectious_vectors (the_place w') = get_infectious_vectors (the_place w)"
    "random_stream w' = random_stream w" "draws_consumed w' = draws_consumed w"
  shows "well_formed g d w' = well_formed g d w"
  using assms by (simp add: well_formed_def)

lemma infect_vectors_place:
  assumes "infect_vectors g day w = Inr w'"
  shows "the_place w' = the_place w \<or>
         the_place w' = (the_place w)\<lparr>have_vectors_been_infected_today := True\<rparr>"
proof (cases "get_susceptible_vectors (the_place w) = 0 \<or> total_infectious_hosts g w = 0")
  case True
  then show ?thesis using assms by (simp add: infect_vectors_guard)
next
  case False
  then obtain T where T: "total_infections g w = Some T"
    using assms by (cases "total_infections g w") (auto simp: infect_vectors_fault)
  show ?thesis
    using infect_vectors_normal_path[OF _ _ T, of day] False assms
    by (auto simp: mark_vectors_as_infected_today_def)
qed

lemma spread_infection_guard:
  assumes "get_transmissibility g d = Fin 0 \<or> \<not> is_open (the_place w) day \<or>
           \<not> should_be_open (the_place w) day d"
  shows "spread_infection g day d w = Inr (w\<lparr>calls := calls w @ [ResetPlaceState d]\<rparr>)"
  using assms by (auto simp: spread_infection_def reset_place_state_def)

lemma spread_infection_normal_path:
  assumes "get_transmissibility g d \<noteq> Fin 0" "is_open (the_place w) day"
    "should_be_open (the_place w) day d"
  shows "spread_infection g day d w =
     (case (if have_vectors_been_infected_today (the_place w)
            then Inr (record_infectious_days day w)
            else infect_vectors g day (record_infectious_days day w)) of
        Inl e \<Rightarrow> Inl e
      | Inr w2 \<Rightarrow>
          (case infect_hosts g day d w2 of
             Inl e \<Rightarrow> Inl e
           | Inr w3 \<Rightarrow> Inr (reset_place_state d w3)))"
  using assms by (simp add: spread_infection_def record_infectious_days_def)

lemma spread_infection_calls:
  assumes "spread_infection g day d w = Inr w'"
  shows "\<exists>evs. calls w' = calls w @ evs @ [ResetPlaceState d] \<and> (\<forall>e \<in> set evs. \<not> is_reset e)"
proof (cases "get_transmissibility g d = Fin 0 \<or> \<not> is_open (the_place w) day \<or>
           \<not> should_be_open (the_place w) day d")
  case True
  from spread_infection_guard[OF True] assms have "calls w' = calls w @ [] @ [ResetPlaceState d]"
    by auto
  then show ?thesis by (metis empty_iff empty_set)
next
  case False
  let ?w1 = "record_infectious_days day w"
  from False assms obtain w2 w3 where
    w2: "(if have_vectors_been_infected_today (the_place w) then Inr ?w1
          else infect_vectors g day ?w1) = Inr w2"
    and w3: "infect_hosts g day d w2 = Inr w3" and w': "w' = reset_place_state d w3"
    by (auto simp: spread_infection_normal_path split: sum.splits)
  have "\<exists>evs2. calls w2 = calls ?w1 @ evs2 \<and> (\<forall>e \<in> set evs2. \<not> is_reset e)"
  proof (cases "have_vectors_been_infected_today (the_place w)")
    case True
    with w2 show ?thesis by auto
  next
    case False
    with w2 infect_vectors_effect[of g day ?w1 w2] show ?thesis by auto
  qed
  then obtain evs2 where 2: "calls w2 = calls ?w1 @ evs2" "\<forall>e \<in> set evs2. \<not> is_reset e" by blast
  from infect_hosts_calls[OF w3] obtain evs3 where
    3: "calls w3 = calls w2 @ evs3" "\<forall>e \<in> set evs3. \<not> is_reset e" by blast
  have "calls w' = calls w @ (RecordInfectiousDays day # evs2 @ evs3) @ [ResetPlaceState d]"
    using 2 3 w' by (simp add: reset_place_state_def record_infectious_days_def)
  moreover have "\<forall>e \<in> set (RecordInfectiousDays day # evs2 @ evs3). \<not> is_reset e"
    using 2 3 by auto
  ultimately show ?thesis by blast
qed

lemma spread_infection_total:
  assumes "well_formed g d w"
  shows "\<exists>w'. spread_infection g day d w = Inr w'"
proof (cases "get_transmissibility g d = Fin 0 \<or> \<not> is_open (the_place w) day \<or>
           \<not> should_be_open (the_place w) day d")
  case True
  from spread_infection_guard[OF True] show ?thesis by simp
next
  case False
  let ?w1 = "record_infectious_days day w"
  have wf1: "well_formed g d ?w1"
    using assms by (simp add: well_formed_def record_infectious_days_def)
  have "\<exists>w2. (if have_vectors_been_infected_today (the_place w) then Inr ?w1
          else infect_vectors g day ?w1) = Inr w2 \<and> well_formed g d w2"
  proof (cases "have_vectors_been_infected_today (the_place w)")
    case True
    with wf1 show ?thesis by simp
  next
    case False
    from infect_vectors_total[OF wf1] obtain w2 where w2: "infect_vectors g day ?w1 = Inr w2"
      by blast
    have "well_formed g d w2 = well_formed g d ?w1"
      using infect_vectors_place[OF w2] infect_vectors_effect[OF w2]
      by (intro well_formed_cong) auto
    with w2 wf1 False show ?thesis by simp
  qed
  then obtain w2 where w2: "(if have_vectors_been_infected_today (the_place w) then Inr ?w1
          else infect_vectors g day ?w1) = Inr w2" "well_formed g d w2" by blast
  from infect_hosts_total[OF w2(2)] obtain w3 where "infect_hosts g day d w2 = Inr w3" by blast
  with w2 False show ?thesis by (simp add: spread_infection_normal_path)
qed

lemma example_well_formed: "well_formed example_globals 0 example_world"
  by (simp add: well_formed_def example_defs upt_conv_Cons)


lemma total_infectious_hosts_cong:
  "the_place w' = the_place w \<Longrightarrow> total_infectious_hosts g w' = total_infectious_hosts g w"
  by (simp add: total_infectious_hosts_def infectious_hosts_def)

lemma spread_infection_place_without_vector_stage:
  assumes "get_susceptible_vectors (the_place w) = 0 \<or> total_infectious_hosts g w = 0"
    and "spread_infection g day d w = Inr w'"
  shows "the_place w' = the_place w"
proof (cases "get_transmissibility g d = Fin 0 \<or> \<not> is_open (the_place w) day \<or>
           \<not> should_be_open (the_place w) day d")
  case True
  from spread_infection_guard[OF True] assms(2) show ?thesis by auto
next
  case False
  let ?w1 = "record_infectious_days day w"
  have p1: "the_place ?w1 = the_place w" by (simp add: record_infectious_days_def)
  have iv: "infect_vectors g day ?w1 = Inr ?w1"
    using assms(1) p1 total_infectious_hosts_cong[OF p1, of g] by (intro infect_vectors_guard) simp
  from False assms(2) obtain w3 where
    w3: "infect_hosts g day d ?w1 = Inr w3" and w': "w' = reset_place_state d w3"
    by (auto simp: spread_infection_normal_path iv split: sum.splits if_splits)
  from infect_hosts_calls[OF w3] have "the_place w3 = the_place w" using p1 by simp
  then show ?thesis using w' by (simp add: reset_place_state_def)
qed

lemma no_vectors_well_formed: "well_formed example_globals 0 no_vectors_world"
  by (simp add: well_formed_def no_vectors_world_def example_defs upt_conv_Cons)

lemma infect_vectors_marks:
  assumes "get_susceptible_vectors (the_place w) \<noteq> 0" "total_infectious_hosts g w \<noteq> 0"
    and "infect_vectors g day w = Inr w'"
  shows "have_vectors_been_infected_today (the_place w')"
proof -
  from assms obtain T where T: "total_infections g w = Some T"
    by (cases "total_infections g w") (auto simp: infect_vectors_fault)
  show ?thesis
    using infect_vectors_normal_path[OF assms(1,2) T, of day] assms(3)
    by (auto simp: mark_vectors_as_infected_today_def)
qed

lemma infect_hosts_random_stream:
  assumes "infect_hosts g day d w = Inr w'"
  shows "random_stream w' = random_stream w"
  using infect_hosts_cases[OF assms]
proof
  assume "w' = w" then show ?thesis by simp
next
  assume "\<exists>N. attempt_loop g day d
             \<lparr>vsize = 0, storage = map int [0..<length (get_enrollees (the_place w))]\<rparr> N 0
             (w\<lparr>draws_consumed := Suc (draws_consumed w)\<rparr>) = Inr w'"
  then obtain N where l: "attempt_loop g day d
             \<lparr>vsize = 0, storage = map int [0..<length (get_enrollees (the_place w))]\<rparr> N 0
             (w\<lparr>draws_consumed := Suc (draws_consumed w)\<rparr>) = Inr w'" by blast
  from attempt_loop_frame[OF l] show ?thesis by simp
qed

lemma spread_infection_random_stream:
  assumes "spread_infection g day d w = Inr w'"
  shows "random_stream w' = random_stream w"
proof (cases "get_transmissibility g d = Fin 0 \<or> \<not> is_open (the_place w) day \<or>
           \<not> should_be_open (the_place w) day d")
  case True
  from spread_infection_guard[OF True] assms show ?thesis by auto
next
  case False
  let ?w1 = "record_infectious_days day w"
  from False assms obtain w2 w3 where
    w2: "(if have_vectors_been_infected_today (the_place w) then Inr ?w1
          else infect_vectors g day ?w1) = Inr w2"
    and w3: "infect_hosts g day d w2 = Inr w3" and w': "w' = reset_place_state d w3"
    by (auto simp: spread_infection_normal_path split: sum.splits)
  have "random_stream w2 = random_stream ?w1"
  proof (cases "have_vectors_been_infected_today (the_place w)")
    case True
    with w2 show ?thesis by auto
  next
    case False
    with w2 infect_vectors_effect[of g day ?w1 w2] show ?thesis by auto
  qed
  with infect_hosts_random_stream[OF w3] w' show ?thesis
    by (simp add: reset_place_state_def record_infectious_days_def)
qed

lemma example_tih: "total_infectious_hosts example_globals example_world = 1"
  by (simp add: total_infectious_hosts_def infectious_hosts_def example_defs upt_conv_Cons)


lemma attempt_loop_in_range:
  assumes "attempt_loop g day d idx N j w = Inr w'"
  shows "\<forall>i. j \<le> i \<and> i < nat N \<longrightarrow> i < length (storage idx) \<and> 0 \<le> storage idx ! i \<and>
           storage idx ! i < int (length (get_enrollees (the_place w)))"
proof -
  let ?P = "\<lambda>(i::nat) v. the_place v = the_place w \<and>
      (\<forall>i'. j \<le> i' \<and> i' < i \<longrightarrow> i' < length (storage idx) \<and> 0 \<le> storage idx ! i' \<and>
           storage idx ! i' < int (length (get_enrollees (the_place w))))"
  have "?P (max j (nat N)) w'"
  proof (rule attempt_loop_rule[OF assms, where P = ?P])
    show "?P j w" by simp
  next
    fix i v v'
    assume inv: "?P i v" and a: "attempt g day d idx i v = Inr v'"
    from a show "?P (Suc i) v'"
    proof (rule attempt_effect)
      fix k
      assume k: "vector_get idx i = Some k" "0 \<le> k"
        "k < int (length (get_enrollees (the_place v)))" and pl: "the_place v' = the_place v"
      have "i < length (storage idx)" "storage idx ! i = k"
        using k(1) by (auto simp: vector_get_def split: if_splits)
      with k inv pl show "?P (Suc i) v'" by (auto simp: less_Suc_eq)
    qed
  qed
  then show ?thesis by simp
qed

lemma map_nth_take: "n \<le> length xs \<Longrightarrow> map (\<lambda>i. xs ! i) [0..<n] = take n xs"
proof -
  assume n: "n \<le> length xs"
  have "take n xs = take n (map (\<lambda>i. xs ! i) [0..<length xs])" by (simp add: map_nth)
  also have "\<dots> = map (\<lambda>i. xs ! i) (take n [0..<length xs])" by (simp add: take_map)
  also have "take n [0..<length xs] = [0..<n]" using n by simp
  finally show ?thesis by simp
qed

text \<open>The order in which \<open>infect_hosts\<close> visits the hosts does not depend on the random
  stream: the index vector has size 0 when it is handed to the shuffle, which therefore
  swaps nothing and draws nothing, and the hosts are visited in the order of enrollment.\<close>

lemma infect_hosts_visits_prefix:
  assumes "infect_hosts g day d w = Inr w'"
  shows "(\<exists>n. visited_hosts (new_calls w w') = take n (get_enrollees (the_place w))) \<and>
         draws_consumed w' \<le> Suc (draws_consumed w)"
  using infect_hosts_cases[OF assms]
proof
  assume "w' = w"
  then have "visited_hosts (new_calls w w') = take 0 (get_enrollees (the_place w))"
    by (simp add: new_calls_def)
  then show ?thesis using \<open>w' = w\<close> by (intro conjI exI[of _ 0]) simp_all
next
  let ?enr = "get_enrollees (the_place w)"
  let ?idx = "\<lparr>vsize = 0, storage = map int [0..<length ?enr]\<rparr>"
  let ?w0 = "w\<lparr>draws_consumed := Suc (draws_consumed w)\<rparr>"
  assume "\<exists>N. attempt_loop g day d ?idx N 0 ?w0 = Inr w'"
  then obtain N where l: "attempt_loop g day d ?idx N 0 ?w0 = Inr w'" by blast
  from attempt_loop_in_range[OF l] have r: "\<forall>i<nat N. i < length ?enr" by simp
  have N: "nat N \<le> length ?enr"
  proof (rule ccontr)
    assume "\<not> nat N \<le> length ?enr"
    then have "length ?enr < nat N" by simp
    with r show False by blast
  qed
  from attempt_loop_calls[OF l] obtain evs where evs: "calls w' = calls ?w0 @ evs"
    "visited_hosts evs = map (\<lambda>i. get_enrollees (the_place ?w0) ! nat (storage ?idx ! i)) [0..<max 0 (nat N)]"
    by blast
  have "map (\<lambda>i. get_enrollees (the_place ?w0) ! nat (storage ?idx ! i)) [0..<max 0 (nat N)]
      = map (\<lambda>i. ?enr ! i) [0..<nat N]"
    using N by (intro map_cong) auto
  then have "visited_hosts evs = take (nat N) ?enr" using evs(2) N by (simp add: map_nth_take)
  moreover have "new_calls w w' = evs" using evs(1) by (simp add: new_calls_def)
  moreover have "draws_consumed w' = Suc (draws_consumed w)"
    using attempt_loop_frame[OF l] by simp
  ultimately show ?thesis by auto
qed


lemma map_sum_calls_Inr:
  assumes "map_sum id calls r = Inr evs"
  obtains w' where "r = Inr w'" "calls w' = evs"
  using assms by (cases r) auto

lemma example_world_stream: "example_world\<lparr>random_stream := \<lambda>n. 1 / 4\<rparr> = example_world"
  by (simp add: example_world_def)

lemma example_infect_hosts_calls:
  obtains w' where "infect_hosts example_globals 0 0 example_world = Inr w'"
    "calls w' = [UpdateSchedule 10 0, BecomeExposed 10 0 0, BecomeUnsusceptible 10 1,
                 UpdateSchedule 11 0]"
proof -
  have "map_sum id calls (infect_hosts example_globals 0 0 example_world) =
     Inr [UpdateSchedule 10 0, BecomeExposed 10 0 0, BecomeUnsusceptible 10 1, UpdateSchedule 11 0]"
    using example_infect_hosts[of "\<lambda>n. 1 / 4"] by (simp add: example_world_stream)
  then show ?thesis by (rule map_sum_calls_Inr) (rule that)
qed












text \<open>The shuffle, as modelled, leaves a vector of size 0 as it is and draws nothing; on
  a vector whose three elements are inside its size it draws twice and reorders them.\<close>

lemma FYShuffle_size_0: "vsize v = 0 \<Longrightarrow> FYShuffle v w = (v, w)"
  by (simp add: FYShuffle_def)

lemma fy_loop_draws:
  "draws_consumed (snd (fy_loop n xs w)) = draws_consumed w + (n - 1)"
  by (induction n xs w rule: fy_loop.induct) (simp_all add: draw_random_def Let_def)

lemma FYShuffle_sized_index:
  "map_prod storage draws_consumed (FYShuffle sized_index (example_world\<lparr>random_stream := \<lambda>n. 0\<rparr>)) =
     ([1, 2, 0], 2)"
  by (simp add: FYShuffle_def sized_index_def draw_random_def numeral_3_eq_3 example_world_def)

section \<open>The claims\<close>

text \<open>Claim C1. Every call of \<open>spread_infection\<close> that returns has made exactly one call of
  \<^verbatim>\<open>reset_place_state\<close>, for the disease of the call, and it is the last call made: on
  the short-circuit of a guard as well as at the end of the normal path. The call returns
  whenever a guard short-circuits, and on the normal path whenever the inputs are
  well-formed.\<close>

theorem spread_infection_resets_exactly_once:
  "(spread_infection g day d w = Inr w' \<longrightarrow>
      calls w' = calls w @ new_calls w w' \<and>
      filter is_reset (new_calls w w') = [ResetPlaceState d] \<and>
      last (calls w') = ResetPlaceState d) \<and>
   (get_transmissibility g d = Fin 0 \<or> is_open (the_place w) day = False \<or>
    should_be_open (the_place w) day d = False \<or> well_formed g d w \<longrightarrow>
      (\<exists>w''. spread_infection g day d w = Inr w''))"
proof (intro conjI impI)
  assume a: "spread_infection g day d w = Inr w'"
  from spread_infection_calls[OF a] obtain evs where
    evs: "calls w' = calls w @ evs @ [ResetPlaceState d]" "\<forall>e \<in> set evs. \<not> is_reset e" by blast
  then have n: "new_calls w w' = evs @ [ResetPlaceState d]" by (simp add: new_calls_def)
  show "calls w' = calls w @ new_calls w w'" using evs n by simp
  show "filter is_reset (new_calls w w') = [ResetPlaceState d]" using evs(2) n by simp
  show "last (calls w') = ResetPlaceState d" using evs(1) by simp
next
  assume "get_transmissibility g d = Fin 0 \<or> is_open (the_place w) day = False \<or>
    should_be_open (the_place w) day d = False \<or> well_formed g d w"
  then consider "get_transmissibility g d = Fin 0 \<or> \<not> is_open (the_place w) day \<or>
           \<not> should_be_open (the_place w) day d" | "well_formed g d w" by auto
  then show "\<exists>w''. spread_infection g day d w = Inr w''"
  proof cases
    case 1
    from spread_infection_guard[OF 1] show ?thesis by simp
  next
    case 2
    then show ?thesis by (rule spread_infection_total)
  qed
qed

theorem spread_infection_resets_exactly_once_witness:
  "well_formed example_globals 0 example_world \<and>
   (\<exists>w'. spread_infection example_globals 0 0 example_world = Inr w' \<and>
      filter is_reset (new_calls example_world w') = [ResetPlaceState 0] \<and>
      last (calls w') = ResetPlaceState 0)"
proof -
  from spread_infection_resets_exactly_once[of example_globals 0 0 example_world] example_well_formed
  obtain w' where w': "spread_infection example_globals 0 0 example_world = Inr w'" by blast
  with spread_infection_resets_exactly_once[of example_globals 0 0 example_world w']
  show ?thesis using example_well_formed by blast
qed


text \<open>Claim C7. For a bite rate that is not negative, efficiencies in \<open>[0, 1]\<close> and a
  ratio \<open>n / th\<close> of a count \<open>n\<close> that is not negative to a positive number of hosts, both
  probabilities of infection, of a vector (line 97) and of a host (line 136), are finite
  values in \<open>[0, 1]\<close>.\<close>

theorem prob_infection_in_unit_interval:
  assumes "get_bite_rate g = Fin b" "0 \<le> b"
    and "get_infection_efficiency g = Fin ie" "0 \<le> ie" "ie \<le> 1"
    and "get_transmission_efficiency g = Fin te" "0 \<le> te" "te \<le> 1"
    and "0 \<le> n" "0 < th"
  shows "(\<exists>p. vector_prob_infection g n th = Fin p \<and> 0 \<le> p \<and> p \<le> 1) \<and>
         (\<exists>p. host_prob_infection g n th = Fin p \<and> 0 \<le> p \<and> p \<le> 1)"
  using assms prob_formula_unit[of b ie n th] prob_formula_unit[of b te n th]
  by (simp add: vector_prob_infection_def host_prob_infection_def)

theorem prob_infection_in_unit_interval_witness:
  "get_bite_rate example_globals = Fin 1 \<and>
   get_infection_efficiency example_globals = Fin 1 \<and>
   get_transmission_efficiency example_globals = Fin (1 / 2) \<and>
   (\<exists>p. vector_prob_infection example_globals 1 3 = Fin p \<and> 0 \<le> p \<and> p \<le> 1) \<and>
   (\<exists>p. host_prob_infection example_globals 1 3 = Fin p \<and> 0 \<le> p \<and> p \<le> 1)"
proof -
  have g: "get_bite_rate example_globals = Fin 1"
    "get_infection_efficiency example_globals = Fin 1"
    "get_transmission_efficiency example_globals = Fin (1 / 2)"
    by (simp_all add: example_globals_def)
  from prob_infection_in_unit_interval[OF g(1) _ g(2) _ _ g(3), of 1 3] g
  show ?thesis by simp
qed

text \<open>Claim C8. When the transmissibility of the disease is 0, or the place is not open
  on the day, or the policy for the disease says closed, \<open>spread_infection\<close> returns the
  world it was given with one call of \<^verbatim>\<open>reset_place_state\<close> added: the place, the
  persons and the random stream are unchanged, and no other call is made.\<close>

theorem spread_infection_guards_only_reset:
  assumes "get_transmissibility g d = Fin 0 \<or> is_open (the_place w) day = False \<or>
           should_be_open (the_place w) day d = False"
  shows "spread_infection g day d w = Inr (w\<lparr>calls := calls w @ [ResetPlaceState d]\<rparr>)"
  using assms by (intro spread_infection_guard) auto

theorem spread_infection_guards_only_reset_witness:
  "is_open (the_place closed_world) 0 = False \<and>
   spread_infection example_globals 0 0 closed_world =
     Inr (closed_world\<lparr>calls := [ResetPlaceState 0]\<rparr>)"
proof -
  have c: "is_open (the_place closed_world) 0 = False" "calls closed_world = []"
    by (simp_all add: closed_world_def example_defs)
  with spread_infection_guards_only_reset[of example_globals 0 closed_world 0]
  show ?thesis by simp
qed

text \<open>Claim C10. When the place has no susceptible vectors, or no infectious hosts of any
  disease, \<open>infect_vectors\<close> returns the world unchanged: the flag is set only at line 110,
  after the allocations. A call of \<open>spread_infection\<close> made with the shared flag unset then
  leaves the place as it was, the flag still unset. The flag is what lines 53-55 test: in
  every world \<open>v\<close> in which the flag is as that call left it, a call for another disease that
  passes its three guards runs \<open>infect_vectors\<close> on the world after
  \<^verbatim>\<open>record_infectious_days\<close>, and \<open>infect_hosts\<close> on what it returns. The world \<open>v\<close> is
  arbitrary apart from the flag, so the equation fixes the invocation also where
  \<open>infect_vectors\<close> exposes vectors and sets the flag; the world the first call returned
  is one such \<open>v\<close>.\<close>

theorem vectors_flag_left_unset_by_guards:
  assumes "have_vectors_been_infected_today (the_place w) = False"
    and "get_susceptible_vectors (the_place w) = 0 \<or> total_infectious_hosts g w = 0"
  shows "infect_vectors g day w = Inr w \<and>
    (spread_infection g day d1 w = Inr w1 \<longrightarrow>
       the_place w1 = the_place w \<and>
       have_vectors_been_infected_today (the_place w1) = False \<and>
       (have_vectors_been_infected_today (the_place v) =
          have_vectors_been_infected_today (the_place w1) \<and>
        get_transmissibility g d2 \<noteq> Fin 0 \<and> is_open (the_place v) day \<and>
        should_be_open (the_place v) day d2 \<longrightarrow>
          spread_infection g day d2 v =
            (case infect_vectors g day (record_infectious_days day v) of
               Inl e \<Rightarrow> Inl e
             | Inr w2 \<Rightarrow>
                 (case infect_hosts g day d2 w2 of
                    Inl e \<Rightarrow> Inl e
                  | Inr w3 \<Rightarrow> Inr (reset_place_state d2 w3)))))"
proof (intro conjI impI)
  show "infect_vectors g day w = Inr w" using assms(2) by (rule infect_vectors_guard)
next
  assume a: "spread_infection g day d1 w = Inr w1"
  show p: "the_place w1 = the_place w"
    using assms(2) a by (rule spread_infection_place_without_vector_stage)
  then show f: "have_vectors_been_infected_today (the_place w1) = False" using assms(1) by simp
  assume "have_vectors_been_infected_today (the_place v) =
          have_vectors_been_infected_today (the_place w1) \<and>
        get_transmissibility g d2 \<noteq> Fin 0 \<and> is_open (the_place v) day \<and>
        should_be_open (the_place v) day d2"
  then show "spread_infection g day d2 v =
            (case infect_vectors g day (record_infectious_days day v) of
               Inl e \<Rightarrow> Inl e
             | Inr w2 \<Rightarrow>
                 (case infect_hosts g day d2 w2 of
                    Inl e \<Rightarrow> Inl e
                  | Inr w3 \<Rightarrow> Inr (reset_place_state d2 w3)))"
    using f by (simp add: spread_infection_normal_path)
qed

text \<open>In the run below the first call is made with no susceptible vector. In the world it
  returns the following call finds the guard of \<open>infect_vectors\<close> again and goes on to the
  hosts; once ten susceptible vectors are present in that world, the following call exposes
  vectors and returns with the flag set.\<close>

theorem vectors_flag_left_unset_by_guards_witness:
  "have_vectors_been_infected_today (the_place no_vectors_world) = False \<and>
   get_susceptible_vectors (the_place no_vectors_world) = 0 \<and>
   (\<exists>w1. spread_infection example_globals 0 0 no_vectors_world = Inr w1 \<and>
      have_vectors_been_infected_today (the_place w1) = False \<and>
      spread_infection example_globals 0 1 w1 =
        (case infect_hosts example_globals 0 1 (record_infectious_days 0 w1) of
           Inl e \<Rightarrow> Inl e
         | Inr w3 \<Rightarrow> Inr (reset_place_state 1 w3)) \<and>
      (\<exists>w2 w3. infect_vectors example_globals 0
                 (record_infectious_days 0 (w1\<lparr>the_place := example_place\<rparr>)) = Inr w2 \<and>
         have_vectors_been_infected_today (the_place w2) \<and>
         spread_infection example_globals 0 1 (w1\<lparr>the_place := example_place\<rparr>) = Inr w3 \<and>
         have_vectors_been_infected_today (the_place w3)))"
proof -
  let ?g = example_globals
  have h: "have_vectors_been_infected_today (the_place no_vectors_world) = False"
    "get_susceptible_vectors (the_place no_vectors_world) = 0"
    by (simp_all add: no_vectors_world_def example_defs)
  from spread_infection_total[OF no_vectors_well_formed] obtain w1 where
    w1: "spread_infection ?g 0 0 no_vectors_world = Inr w1" by blast
  let ?v = "w1\<lparr>the_place := example_place\<rparr>"
  let ?r = "record_infectious_days 0 ?v"
  have p: "the_place w1 = the_place no_vectors_world"
    and f: "have_vectors_been_infected_today (the_place w1) = False"
  proof -
    note t = vectors_flag_left_unset_by_guards[where w = no_vectors_world and g = example_globals
        and day = 0 and ?d1.0 = 0 and ?w1.0 = w1 and v = w1 and ?d2.0 = 1, OF h(1) disjI1[OF h(2)]]
    note u = mp[OF conjunct2[OF t] w1]
    from u show "the_place w1 = the_place no_vectors_world" by (rule conjunct1)
    from conjunct2[OF u] show "have_vectors_been_infected_today (the_place w1) = False"
      by (rule conjunct1)
  qed
  have gate: "\<And>v :: world. have_vectors_been_infected_today (the_place v) = False \<Longrightarrow>
      is_open (the_place v) 0 \<Longrightarrow> should_be_open (the_place v) 0 1 \<Longrightarrow>
      spread_infection ?g 0 1 v =
        (case infect_vectors ?g 0 (record_infectious_days 0 v) of
           Inl e \<Rightarrow> Inl e
         | Inr w2 \<Rightarrow>
             (case infect_hosts ?g 0 1 w2 of
                Inl e \<Rightarrow> Inl e
              | Inr w3 \<Rightarrow> Inr (reset_place_state 1 w3)))"
  proof -
    fix v :: world
    assume a: "have_vectors_been_infected_today (the_place v) = False"
      "is_open (the_place v) 0" "should_be_open (the_place v) 0 1"
    have tr: "get_transmissibility ?g 1 \<noteq> Fin 0" by (simp add: example_defs)
    note t = vectors_flag_left_unset_by_guards[where w = no_vectors_world and g = example_globals
        and day = 0 and ?d1.0 = 0 and ?w1.0 = w1 and v = v and ?d2.0 = 1, OF h(1) disjI1[OF h(2)]]
    note u = conjunct2[OF conjunct2[OF mp[OF conjunct2[OF t] w1]]]
    have "have_vectors_been_infected_today (the_place v) =
          have_vectors_been_infected_today (the_place w1)" using a(1) f by simp
    from mp[OF u conjI[OF this conjI[OF tr conjI[OF a(2) a(3)]]]]
    show "spread_infection ?g 0 1 v =
        (case infect_vectors ?g 0 (record_infectious_days 0 v) of
           Inl e \<Rightarrow> Inl e
         | Inr w2 \<Rightarrow>
             (case infect_hosts ?g 0 1 w2 of
                Inl e \<Rightarrow> Inl e
              | Inr w3 \<Rightarrow> Inr (reset_place_state 1 w3)))" .
  qed
  have pr1: "the_place (record_infectious_days 0 w1) = the_place no_vectors_world"
    using p by (simp add: record_infectious_days_def)
  have "get_susceptible_vectors (the_place (record_infectious_days 0 w1)) = 0"
    using pr1 h(2) by simp
  then have iv1: "infect_vectors ?g 0 (record_infectious_days 0 w1) = Inr (record_infectious_days 0 w1)"
    by (intro infect_vectors_guard) simp
  have o1: "is_open (the_place w1) 0" "should_be_open (the_place w1) 0 1"
    using p by (simp_all add: no_vectors_world_def example_defs)
  have same: "spread_infection ?g 0 1 w1 =
        (case infect_hosts ?g 0 1 (record_infectious_days 0 w1) of
           Inl e \<Rightarrow> Inl e
         | Inr w3 \<Rightarrow> Inr (reset_place_state 1 w3))"
    by (simp only: gate[OF f o1] iv1 sum.case)
  have pr: "the_place ?r = the_place example_world"
    by (simp add: record_infectious_days_def example_world_def)
  have rs: "random_stream ?r = random_stream example_world"
    using spread_infection_random_stream[OF w1]
    by (simp add: record_infectious_days_def no_vectors_world_def example_world_def)
  have wf: "well_formed ?g 1 ?r"
    using pr rs by (simp add: well_formed_def example_defs upt_conv_Cons)
  from infect_vectors_total[OF wf] obtain w2 where w2: "infect_vectors ?g 0 ?r = Inr w2" by blast
  have nz: "get_susceptible_vectors (the_place ?r) \<noteq> 0" "total_infectious_hosts ?g ?r \<noteq> 0"
    using pr total_infectious_hosts_cong[OF pr, of ?g] example_tih
    by (simp_all add: example_defs)
  from infect_vectors_marks[OF nz w2] have m2: "have_vectors_been_infected_today (the_place w2)" .
  have wf2: "well_formed ?g 1 w2"
  proof -
    from infect_vectors_place[OF w2] have a:
      "get_size (the_place w2) = get_size (the_place ?r)"
      "get_number_of_infectious_people (the_place w2) = get_number_of_infectious_people (the_place ?r)"
      "get_infectious_vectors (the_place w2) = get_infectious_vectors (the_place ?r)"
      by auto
    from infect_vectors_effect[OF w2] have b:
      "random_stream w2 = random_stream ?r" "draws_consumed w2 = draws_consumed ?r" by simp_all
    from well_formed_cong[OF a b, of ?g 1] wf show ?thesis by (rule iffD2)
  qed
  from infect_hosts_total[OF wf2] obtain w3 where w3: "infect_hosts ?g 0 1 w2 = Inr w3" by blast
  have ov: "have_vectors_been_infected_today (the_place ?v) = False"
    "is_open (the_place ?v) 0" "should_be_open (the_place ?v) 0 1"
    by (simp_all add: example_defs)
  have s2: "spread_infection ?g 0 1 ?v = Inr (reset_place_state 1 w3)"
    by (simp only: gate[OF ov] w2 w3 sum.case)
  have m3: "have_vectors_been_infected_today (the_place (reset_place_state 1 w3))"
    using infect_hosts_calls[OF w3] m2 by (simp add: reset_place_state_def)
  show ?thesis
    by (intro conjI exI[of _ w1] exI[of _ w2] exI[of _ "reset_place_state 1 w3"]
        h w1 f same w2 m2 s2 m3)
qed



text \<open>Claim C9. Every host that a call of \<open>infect_hosts\<close> for disease \<open>d\<close> exposes is
  exposed to \<open>d\<close>, and for every other disease \<open>y\<close> below \<^verbatim>\<open>DISEASE_TYPES\<close> the same
  call makes it unsusceptible to \<open>y\<close>: \<^verbatim>\<open>become_unsusceptible\<close> is called for \<open>y\<close>, and
  the host is not susceptible to \<open>y\<close> when the call returns.\<close>

theorem infect_hosts_cross_immunity:
  assumes "infect_hosts g day d w = Inr w'"
  shows "\<forall>h x dy. BecomeExposed h x dy \<in> set (new_calls w w') \<longrightarrow>
           x = d \<and>
           (\<forall>y < DISEASE_TYPES g. y \<noteq> d \<longrightarrow>
              BecomeUnsusceptible h y \<in> set (new_calls w w') \<and>
              \<not> is_susceptible (people w' h) y)"
  using infect_hosts_cases[OF assms]
proof
  assume "w' = w"
  then show ?thesis by (simp add: new_calls_def)
next
  let ?idx = "\<lparr>vsize = 0, storage = map int [0..<length (get_enrollees (the_place w))]\<rparr>"
  let ?w0 = "w\<lparr>draws_consumed := Suc (draws_consumed w)\<rparr>"
  assume "\<exists>N. attempt_loop g day d ?idx N 0 ?w0 = Inr w'"
  then obtain N where l: "attempt_loop g day d ?idx N 0 ?w0 = Inr w'" ..
  from attempt_loop_calls[OF l] obtain evs where
    c: "calls w' = calls ?w0 @ evs"
    and e: "\<forall>h x dy. BecomeExposed h x dy \<in> set evs \<longrightarrow> x = d \<and> dy = day"
    and u: "\<forall>h \<in> set (exposed_hosts evs).
              is_present (people ?w0 h) day \<and> is_susceptible (people ?w0 h) d \<and>
              (\<forall>y < DISEASE_TYPES g. y \<noteq> d \<longrightarrow>
                 BecomeUnsusceptible h y \<in> set evs \<and> \<not> is_susceptible (people w' h) y)"
    by (elim exE conjE) (rule that; assumption)
  have n: "new_calls w w' = evs" using c by (simp add: new_calls_def)
  show ?thesis
  proof (intro allI impI)
    fix h x dy
    assume "BecomeExposed h x dy \<in> set (new_calls w w')"
    then have m: "BecomeExposed h x dy \<in> set evs" using n by simp
    then have "h \<in> set (exposed_hosts evs)" by (auto simp: exposed_hosts_iff)
    with u have "\<forall>y < DISEASE_TYPES g. y \<noteq> d \<longrightarrow>
                 BecomeUnsusceptible h y \<in> set evs \<and> \<not> is_susceptible (people w' h) y"
      by simp
    moreover have "x = d" using e m by simp
    ultimately show "x = d \<and>
           (\<forall>y < DISEASE_TYPES g. y \<noteq> d \<longrightarrow>
              BecomeUnsusceptible h y \<in> set (new_calls w w') \<and>
              \<not> is_susceptible (people w' h) y)"
      using n by simp
  qed
qed

theorem infect_hosts_cross_immunity_witness:
  "\<exists>w'. infect_hosts example_globals 0 0 example_world = Inr w' \<and>
      BecomeExposed 10 0 0 \<in> set (new_calls example_world w') \<and>
      BecomeUnsusceptible 10 1 \<in> set (new_calls example_world w') \<and>
      \<not> is_susceptible (people w' 10) 1"
proof -
  obtain w' where w': "infect_hosts example_globals 0 0 example_world = Inr w'"
    "calls w' = [UpdateSchedule 10 0, BecomeExposed 10 0 0, BecomeUnsusceptible 10 1,
                 UpdateSchedule 11 0]"
    by (rule example_infect_hosts_calls)
  have x: "BecomeExposed 10 0 0 \<in> set (new_calls example_world w')"
    using w'(2) by (simp add: new_calls_def example_world_def)
  have "(1::nat) < DISEASE_TYPES example_globals" "(1::nat) \<noteq> 0"
    by (simp_all add: example_globals_def)
  with infect_hosts_cross_immunity[OF w'(1)] x
  have "BecomeUnsusceptible 10 1 \<in> set (new_calls example_world w') \<and>
      \<not> is_susceptible (people w' 10) 1"
    by blast
  with w'(1) x show ?thesis by (intro exI[of _ w']) simp
qed

text \<open>Claim C2 says that the hosts are visited in the order of a uniformly random permutation
  of the enrolled hosts. The code does not do that. For the example place, with three
  enrolled hosts, and every random stream \<open>rs\<close>, \<open>infect_hosts\<close> visits the first one or
  two enrolled hosts in the order of enrollment, never the third one, and consumes one
  draw, the one of the rounding: the index vector is only reserved, its size is 0, and the
  shuffle swaps nothing.\<close>

theorem infect_hosts_order_not_shuffled:
  "\<exists>w'. infect_hosts example_globals 0 0 (example_world\<lparr>random_stream := rs\<rparr>) = Inr w' \<and>
      visited_hosts (calls w') = take (if rs 0 < 1 / 2 then 2 else 1) [10, 11, 12] \<and>
      draws_consumed w' = 1"
proof -
  let ?w = "example_world\<lparr>random_stream := rs\<rparr>"
  from example_infect_hosts[of rs] obtain w' where
    w': "infect_hosts example_globals 0 0 ?w = Inr w'"
    and c: "calls w' = (if rs 0 < 1 / 2
          then [UpdateSchedule 10 0, BecomeExposed 10 0 0, BecomeUnsusceptible 10 1, UpdateSchedule 11 0]
          else [UpdateSchedule 10 0, BecomeExposed 10 0 0, BecomeUnsusceptible 10 1])"
    by (rule map_sum_calls_Inr)
  have v: "visited_hosts (calls w') = take (if rs 0 < 1 / 2 then 2 else 1) [10, 11, 12]"
    using c by simp
  have ne: "w' \<noteq> ?w"
  proof
    assume "w' = ?w"
    then have "calls w' = []" by (simp add: example_world_def)
    with c show False by (simp split: if_splits)
  qed
  from infect_hosts_cases[OF w'] ne obtain N where
    "attempt_loop example_globals 0 0
       \<lparr>vsize = 0, storage = map int [0..<length (get_enrollees (the_place ?w))]\<rparr> N 0
       (?w\<lparr>draws_consumed := Suc (draws_consumed ?w)\<rparr>) = Inr w'"
    by blast
  from attempt_loop_frame[OF this] have "draws_consumed w' = 1"
    by (simp add: example_world_def)
  with w' v show ?thesis by (intro exI[of _ w']) simp
qed






end
